theory Spec2Isabelle
  imports Complex_Main "HOL-Library.Sublist" "HOL-Library.Multiset"
begin

section \<open>Nuclear Workshopper: the fetch, retry and pause engine of \<open>main.py\<close>\<close>

text \<open>
  The development follows \<open>src/main.py\<close>. The scraper runs in a worker thread; the Tk
  main thread owns the pause flags. The model is sequential: whatever the worker reads
  from outside (the flags, the liveness of the thread, the answers of the network) is
  an input, given as a script that the worker consumes in the order of its reads.
\<close>

subsection \<open>The delay policy (\<open>calculate_delay\<close>)\<close>

text \<open>
  Python floats \<open>3.0\<close>, \<open>2.5\<close>, \<open>2.0\<close>, \<open>1.0\<close> are exact binary fractions, and
  the only operation on them is the comparison \<open>delay_time > 1\<close>; they are modelled as
  reals. The page number is a Python int.
\<close>

definition calculate_delay :: "int \<Rightarrow> real" where
  "calculate_delay page_number =
     (if page_number > 15 then 3
      else if page_number > 10 then 5 / 2
      else if page_number > 5 then 2
      else 1)"

subsection \<open>The pause flags (\<open>resume_scraping\<close>, \<open>handle_auto_pause\<close>, \<open>check_for_errors\<close>)\<close>

text \<open>
  The globals \<open>is_paused\<close>, \<open>pause_event\<close> (a \<open>threading.Event\<close>, here its flag),
  \<open>rate_limit_detected\<close> and \<open>auto_paused\<close>.
\<close>

record ctrl =
  is_paused :: bool
  pause_event :: bool
  rate_limit_detected :: bool
  auto_paused :: bool

definition resume_scraping :: "ctrl \<Rightarrow> ctrl" where
  "resume_scraping c =
     (if is_paused c then
        (let c1 = c\<lparr>is_paused := False, pause_event := False, auto_paused := False\<rparr>
         in if rate_limit_detected c1 then c1\<lparr>rate_limit_detected := False\<rparr> else c1)
      else c)"

definition handle_auto_pause :: "ctrl \<Rightarrow> ctrl" where
  "handle_auto_pause c = c\<lparr>is_paused := True, pause_event := True\<rparr>"

text \<open>What every worker loop tests: \<open>pause_event.is_set() or rate_limit_detected\<close>.\<close>

definition blocking :: "('a ctrl_scheme) \<Rightarrow> bool" where
  "blocking c = (pause_event c \<or> rate_limit_detected c)"

subsection \<open>Strings as Python uses them in \<open>fix_date_format\<close>\<close>

text \<open>
  A Python \<open>str\<close> is modelled as a \<open>string\<close>, a \<open>char\<close> standing for the code point
  of the same number (0 to 255).
  \<open>contains sub s\<close> is \<open>sub in s\<close>; \<open>str_replace\<close>, \<open>str_split\<close> and
  \<open>str_join\<close> are \<open>s.replace(old, new)\<close>, \<open>s.split(sep)\<close> and \<open>sep.join(parts)\<close>:
  occurrences are found from the left and do not overlap. Both call sites of
  \<open>split\<close> pass a constant, non-empty separator (Python raises on an empty one).
\<close>

fun contains :: "string \<Rightarrow> string \<Rightarrow> bool" where
  "contains sub [] = (sub = [])"
| "contains sub (c # cs) = (prefix sub (c # cs) \<or> contains sub cs)"

function str_replace :: "string \<Rightarrow> string \<Rightarrow> string \<Rightarrow> string" where
  "str_replace old new [] = (if old = [] then new else [])"
| "str_replace old new (c # cs) =
     (if old = [] then new @ c # str_replace old new cs
      else if prefix old (c # cs)
        then new @ str_replace old new (drop (length old) (c # cs))
        else c # str_replace old new cs)"
  by pat_completeness auto
termination
  by (relation "measure (\<lambda>(old, new, s). length s)") auto

function str_split :: "string \<Rightarrow> string \<Rightarrow> string list" where
  "str_split sep [] = [[]]"
| "str_split sep (c # cs) =
     (if sep \<noteq> [] \<and> prefix sep (c # cs)
        then [] # str_split sep (drop (length sep) (c # cs))
        else (case str_split sep cs of
                [] \<Rightarrow> [[c]]
              | p # ps \<Rightarrow> (c # p) # ps))"
  by pat_completeness auto
termination
  by (relation "measure (\<lambda>(sep, s). length s)") auto

fun str_join :: "string \<Rightarrow> string list \<Rightarrow> string" where
  "str_join sep [] = []"
| "str_join sep [p] = p"
| "str_join sep (p # q # ps) = p @ sep @ str_join sep (q # ps)"

text \<open>The text before the first occurrence of \<open>sep\<close> (all of it when there is none).\<close>

fun before_first :: "string \<Rightarrow> string \<Rightarrow> string" where
  "before_first sep [] = []"
| "before_first sep (c # cs) = (if prefix sep (c # cs) then [] else c # before_first sep cs)"

definition digit_chr :: "nat \<Rightarrow> char" where
  "digit_chr n = ''0123456789'' ! n"

text \<open>\<open>str(n)\<close> for a non-negative int, and \<open>str(i)\<close> for any int.\<close>

fun str_nat :: "nat \<Rightarrow> string" where
  "str_nat n = (if n < 10 then [digit_chr n] else str_nat (n div 10) @ [digit_chr (n mod 10)])"

declare str_nat.simps [simp del]

definition str_int :: "int \<Rightarrow> string" where
  "str_int i = (if i < 0 then CHR ''-'' # str_nat (nat (- i)) else str_nat (nat i))"

definition is_digit :: "char \<Rightarrow> bool" where
  "is_digit c = (c \<in> set ''0123456789'')"

text \<open>
  The classes of the pattern, which is a \<open>str\<close> pattern and so matched with the Unicode
  classes: \<open>\d\<close> is a decimal digit, and below code point 256 these are \<open>0\<close> to \<open>9\<close>;
  \<open>\w\<close> is an alphanumeric character or the underscore, and below code point 256 these
  are the ASCII letters and digits, the underscore, and the code points 170, 178, 179,
  181, 185, 186, 188 to 190 and 192 to 255 without 215 and 247 (the Latin-1 letters,
  superscript digits and fractions).
\<close>

definition is_word :: "char \<Rightarrow> bool" where
  "is_word c =
     (c \<in> set ''abcdefghijklmnopqrstuvwxyzABCDEFGHIJKLMNOPQRSTUVWXYZ0123456789_'' \<or>
      (of_char c :: nat) \<in> set [170, 178, 179, 181, 185, 186, 188, 189, 190] \<or>
      (192 \<le> (of_char c :: nat) \<and> (of_char c :: nat) \<noteq> 215 \<and> (of_char c :: nat) \<noteq> 247))"

text \<open>
  \<open>re.search(r'\b(19|20)\d{2}\b', s)\<close>. \<open>year_here s\<close> matches \<open>(19|20)\d{2}\b\<close> at
  the start of \<open>s\<close>; \<open>year_search pw s\<close> tries every position from the left, \<open>pw\<close>
  telling whether the character before \<open>s\<close> is a word character (the leading \<open>\b\<close>
  holds when it is not, or at the start of the string, since a digit follows).
\<close>

definition year_here :: "string \<Rightarrow> bool" where
  "year_here s =
     (case s of
        a # b # c # d # rest \<Rightarrow>
          ([a, b] = ''19'' \<or> [a, b] = ''20'') \<and> is_digit c \<and> is_digit d \<and>
          (case rest of [] \<Rightarrow> True | e # _ \<Rightarrow> \<not> is_word e)
      | _ \<Rightarrow> False)"

fun year_search :: "bool \<Rightarrow> string \<Rightarrow> bool" where
  "year_search pw [] = False"
| "year_search pw (c # cs) = ((\<not> pw \<and> year_here (c # cs)) \<or> year_search (is_word c) cs)"

definition has_year :: "string \<Rightarrow> bool" where
  "has_year s = year_search False s"

subsection \<open>Date normalisation (\<open>fix_date_format\<close>)\<close>

text \<open>
  \<open>current_year\<close> is \<open>datetime.now().year\<close>, an input. The result is \<open>None\<close> where
  Python would raise \<open>IndexError\<close> at \<open>parts[1]\<close>.
\<close>

text \<open>\<open>any(str(year) in date_string for year in range(1900, 2100))\<close>\<close>

definition any_year_in :: "string \<Rightarrow> bool" where
  "any_year_in date_string =
     list_ex (\<lambda>year. contains (str_nat year) date_string) [1900..<2100]"

definition fix_date_format :: "nat \<Rightarrow> string \<Rightarrow> string option" where
  "fix_date_format current_year date_string =
     (if date_string \<in> set [''Unknown'', ''? KB''] then Some date_string
      else if has_year date_string then Some (str_replace '' @ '' '', '' date_string)
      else if contains '' @ '' date_string then
        (case str_split '' @ '' date_string of
           p0 # p1 # _ \<Rightarrow> Some (p0 @ '', '' @ str_nat current_year @ '', '' @ p1)
         | _ \<Rightarrow> None)
      else if contains '', '' date_string \<and>
              \<not> any_year_in date_string
              \<and> length (str_split '', '' date_string) \<ge> 2 then
        (case str_split '', '' date_string of
           p0 # rest \<Rightarrow> Some (p0 @ '', '' @ str_nat current_year @ '', '' @ str_join '', '' rest)
         | [] \<Rightarrow> None)
      else Some (str_replace '' @ '' '', '' date_string))"

subsection \<open>Listing items, retry entries, records\<close>

text \<open>
  Of a \<open>.workshopItem\<close> element the code reads the title tag and the first \<open>a\<close> tag:
  \<open>title\<close> is the stripped text of \<open>.workshopItemTitle\<close> if there is one; \<open>anchor\<close>
  tells whether there is no \<open>a\<close> tag (\<open>item_link = None\<close>), an \<open>a\<close> tag without
  \<open>href\<close> (\<open>item_link_tag['href']\<close> raises \<open>KeyError\<close>), or an \<open>href\<close>.
  A retry entry is the tuple \<open>(item, page_num, item_index)\<close> of \<open>pending_items\<close>.
  A record is the dict \<open>{"Name": name, **stats}\<close>; \<open>stats\<close> is what
  \<open>fetch_item_details\<close> returned, kept abstract. \<open>origin\<close> is a ghost field: the
  entry the record was fetched for. No branch of the model reads it.
\<close>

datatype anchor = NoAnchor | NoHref | Href string

record item =
  title :: "string option"
  anchor :: anchor

type_synonym entry = "item \<times> int \<times> int"

record 'd item_record =
  Name :: string
  stats :: 'd
  origin :: entry

subsection \<open>What the worker reads from outside\<close>

text \<open>
  A snapshot is what one evaluation of a loop condition reads: the flags, and
  \<open>scraper_thread and scraper_thread.is_alive()\<close>. A detail outcome is what the
  request and the parsing inside \<open>fetch_item_details\<close> come to; a page outcome is what
  \<open>requests.get\<close>, \<open>raise_for_status\<close> and the parsing of a listing page come to.
  The log is a ghost trace of the worker's requests (with their outcomes), of the
  waits before requests, and of the messages it puts on \<open>error_queue\<close>; the half-second
  sleeps of the polling loops are not logged.
\<close>

record snapshot = ctrl +
  thread_alive :: bool

datatype 'd detail_outcome =
    DetailOk 'd
  | Detail429
  | DetailHttp nat string
  | DetailError string

datatype page_outcome =
    Listing "item list"
  | HttpError nat string
  | RequestFailed string
  | Unexpected string

datatype 'd event =
    Sleep real
  | GetPage int page_outcome
  | GetItem string "'d detail_outcome"
  | ErrorPut string

record 'd run_state =
  page_number :: int
  items :: "'d item_record list"
  pending_items :: "entry list"
  processing_pending :: bool
  obs :: "snapshot list"
  details :: "'d detail_outcome list"
  log :: "'d event list"

text \<open>
  The polling loops \<open>while cond: sleep(0.5); if thread gone: return\<close>. The result is
  \<open>None\<close> when the script of snapshots ends while the loop is still waiting,
  \<open>Some (False, rest)\<close> when the thread is seen gone, \<open>Some (True, rest)\<close> when the
  condition is seen false. \<open>wait_if\<close> is the form \<open>if cond: while cond: ...\<close>.
\<close>

fun wait_while :: "(snapshot \<Rightarrow> bool) \<Rightarrow> snapshot list \<Rightarrow> (bool \<times> snapshot list) option" where
  "wait_while cond [] = None"
| "wait_while cond (ob # rest) =
     (if cond ob then (if thread_alive ob then wait_while cond rest else Some (False, rest))
      else Some (True, rest))"

definition wait_if :: "(snapshot \<Rightarrow> bool) \<Rightarrow> snapshot list \<Rightarrow> (bool \<times> snapshot list) option" where
  "wait_if cond script =
     (case script of
        [] \<Rightarrow> None
      | ob # rest \<Rightarrow> if cond ob then wait_while cond rest else Some (True, rest))"

subsection \<open>\<open>fetch_item_details\<close>\<close>

definition fetch_item_details :: "string \<Rightarrow> 'd run_state \<Rightarrow> ('d option \<times> 'd run_state) option" where
  "fetch_item_details item_url s =
     (case obs s of
        [] \<Rightarrow> None
      | ob # rest \<Rightarrow>
          if blocking ob then Some (None, s\<lparr>obs := rest\<rparr>)
          else
            (case details s of
               [] \<Rightarrow> None
             | d # ds \<Rightarrow>
                 (let s1 = s\<lparr>obs := rest, details := ds,
                             log := log s @ [Sleep (1 / 2), GetItem item_url d]\<rparr>
                  in case d of
                       DetailOk st \<Rightarrow> Some (Some st, s1)
                     | Detail429 \<Rightarrow>
                         Some (None, s1\<lparr>log := log s1 @
                           [ErrorPut (''429 Too Many Requests on item: '' @ item_url)]\<rparr>)
                     | DetailHttp code e \<Rightarrow>
                         Some (None, s1\<lparr>log := log s1 @
                           [ErrorPut (''HTTP Error '' @ str_nat code @ '' on item: '' @ e)]\<rparr>)
                     | DetailError e \<Rightarrow>
                         Some (None, s1\<lparr>log := log s1 @
                           [ErrorPut (''Error fetching item details: '' @ e)]\<rparr>))))"

subsection \<open>The body of the item loops\<close>

text \<open>
  The \<open>try\<close> block for one item is written three times in the source: in
  \<open>process_item_batch\<close> for a fresh item and for a retried entry, and in
  \<open>process_final_pending_items\<close>. The three differ in the text of the message put on
  the error queue (and in the console lines, which the model leaves out). On failure
  all three append the tuple \<open>(item, page_num, index)\<close> to \<open>pending_items\<close>; for a
  fresh item the index is the position in the batch.
\<close>

datatype mode = Fresh | Retry | Final

definition error_text :: "mode \<Rightarrow> entry \<Rightarrow> string" where
  "error_text m e =
     (case e of (it, page_num, i) \<Rightarrow>
        (case m of
           Fresh \<Rightarrow> ''Error processing item '' @ str_int (i + 1) @ '' on page ''
                      @ str_int page_num @ '': '' @ [CHR 0x27] @ ''href'' @ [CHR 0x27]
         | Retry \<Rightarrow> ''Error retrying pending item on page '' @ str_int page_num
                      @ '': '' @ [CHR 0x27] @ ''href'' @ [CHR 0x27]
         | Final \<Rightarrow> ''Error in final retry: '' @ [CHR 0x27] @ ''href'' @ [CHR 0x27]))"

definition try_item :: "mode \<Rightarrow> entry \<Rightarrow> 'd run_state \<Rightarrow> ('d item_record list \<times> 'd run_state) option" where
  "try_item m e s =
     (case anchor (fst e) of
        NoHref \<Rightarrow>
          Some ([], s\<lparr>pending_items := pending_items s @ [e],
                       log := log s @ [ErrorPut (error_text m e)]\<rparr>)
      | NoAnchor \<Rightarrow> Some ([], s)
      | Href item_link \<Rightarrow>
          if item_link = [] then Some ([], s)
          else
            (case fetch_item_details item_link s of
               None \<Rightarrow> None
             | Some (None, s1) \<Rightarrow> Some ([], s1\<lparr>pending_items := pending_items s1 @ [e]\<rparr>)
             | Some (Some st, s1) \<Rightarrow>
                 Some ([\<lparr>Name = (case title (fst e) of None \<Rightarrow> ''Unknown'' | Some n \<Rightarrow> n),
                         stats = st, origin = e\<rparr>], s1)))"

text \<open>
  The \<open>for\<close> loop of \<open>process_item_batch\<close> (and of the final pass): wait while the
  flags block, return what has been collected when the thread is gone, else try the
  item.
\<close>

fun process_entries ::
  "mode \<Rightarrow> entry list \<Rightarrow> 'd item_record list \<Rightarrow> 'd run_state
     \<Rightarrow> ('d item_record list \<times> 'd run_state) option" where
  "process_entries m [] results s = Some (results, s)"
| "process_entries m (e # es) results s =
     (case wait_while blocking (obs s) of
        None \<Rightarrow> None
      | Some (False, rest) \<Rightarrow> Some (results, s\<lparr>obs := rest\<rparr>)
      | Some (True, rest) \<Rightarrow>
          (case try_item m e (s\<lparr>obs := rest\<rparr>) of
             None \<Rightarrow> None
           | Some (r, s1) \<Rightarrow> process_entries m es (results @ r) s1))"

text \<open>\<open>[(item, page, i + j) for j, item in enumerate(batch)]\<close>\<close>

definition enumerate_entries :: "item list \<Rightarrow> int \<Rightarrow> int \<Rightarrow> entry list" where
  "enumerate_entries batch page i =
     map (\<lambda>(j, it). (it, page, i + int j)) (enumerate 0 batch)"

text \<open>
  \<open>process_item_batch(batch, page_num, is_pending=False)\<close> on items, and
  \<open>process_item_batch(batch, page_num, is_pending=True)\<close> on entries (which carry
  their own page number and index).
\<close>

definition process_item_batch ::
  "item list \<Rightarrow> int \<Rightarrow> 'd run_state \<Rightarrow> ('d item_record list \<times> 'd run_state) option" where
  "process_item_batch item_batch page_num s =
     process_entries Fresh (enumerate_entries item_batch page_num 0) [] s"

definition process_item_batch_pending ::
  "entry list \<Rightarrow> 'd run_state \<Rightarrow> ('d item_record list \<times> 'd run_state) option" where
  "process_item_batch_pending item_batch s = process_entries Retry item_batch [] s"

subsection \<open>\<open>process_final_pending_items\<close>\<close>

definition process_final_pending_items :: "'d run_state \<Rightarrow> 'd run_state option" where
  "process_final_pending_items s =
     (if pending_items s = [] then Some s
      else
        (case process_entries Final (pending_items s) [] (s\<lparr>pending_items := []\<rparr>) of
           None \<Rightarrow> None
         | Some (rs, s1) \<Rightarrow> Some (s1\<lparr>items := items s1 @ rs\<rparr>)))"

subsection \<open>\<open>fetch_workshop_items\<close>\<close>

text \<open>Slices of \<open>batch_size = 4\<close>: \<open>xs[i:i + 4] for i in range(0, len(xs), 4)\<close>.\<close>

function batches :: "'a list \<Rightarrow> 'a list list" where
  "batches xs = (if xs = [] then [] else take 4 xs # batches (drop 4 xs))"
  by pat_completeness auto
termination
  by (relation "measure length") auto

declare batches.simps [simp del]

text \<open>\<open>pending_by_page\<close>, read in the order of \<open>sorted(pending_by_page.keys())\<close>.\<close>

definition group_pages :: "entry list \<Rightarrow> entry list list" where
  "group_pages retry_items =
     map (\<lambda>p. filter (\<lambda>e. fst (snd e) = p) retry_items)
         (sort (remdups (map (\<lambda>e. fst (snd e)) retry_items)))"

text \<open>The batches of the retry drain: a blocked batch goes back to the queue whole.\<close>

fun drain_batches :: "entry list list \<Rightarrow> 'd run_state \<Rightarrow> 'd run_state option" where
  "drain_batches [] s = Some s"
| "drain_batches (batch # bs) s =
     (case obs s of
        [] \<Rightarrow> None
      | ob # rest \<Rightarrow>
          if blocking ob
          then drain_batches bs (s\<lparr>obs := rest, pending_items := pending_items s @ batch\<rparr>)
          else
            (case process_item_batch_pending batch (s\<lparr>obs := rest\<rparr>) of
               None \<Rightarrow> None
             | Some (rs, s1) \<Rightarrow> drain_batches bs (s1\<lparr>items := items s1 @ rs\<rparr>)))"

definition drain_pending :: "'d run_state \<Rightarrow> 'd run_state option" where
  "drain_pending s =
     (if pending_items s \<noteq> [] \<and> \<not> processing_pending s then
        (case drain_batches (concat (map batches (group_pages (pending_items s))))
                (s\<lparr>processing_pending := True, pending_items := []\<rparr>) of
           None \<Rightarrow> None
         | Some s1 \<Rightarrow> Some (s1\<lparr>processing_pending := False\<rparr>))
      else Some s)"

text \<open>The batches of a listing page; \<open>i\<close> is the index of the batch's first item.\<close>

fun page_batches :: "int \<Rightarrow> int \<Rightarrow> item list list \<Rightarrow> 'd run_state \<Rightarrow> 'd run_state option" where
  "page_batches page i [] s = Some s"
| "page_batches page i (batch # bs) s =
     (case obs s of
        [] \<Rightarrow> None
      | ob # rest \<Rightarrow>
          if blocking ob
          then page_batches page (i + 4) bs
                 (s\<lparr>obs := rest,
                    pending_items := pending_items s @ enumerate_entries batch page i\<rparr>)
          else
            (case process_item_batch batch page (s\<lparr>obs := rest\<rparr>) of
               None \<Rightarrow> None
             | Some (rs, s1) \<Rightarrow> page_batches page (i + 4) bs (s1\<lparr>items := items s1 @ rs\<rparr>)))"

text \<open>
  The head of the \<open>while True\<close> loop: the two waits and the retry drain. \<open>Inl\<close> is the
  early \<open>return items\<close> of a wait that saw the thread gone.
\<close>

definition loop_head :: "'d run_state \<Rightarrow> ('d run_state + 'd run_state) option" where
  "loop_head s =
     (case wait_if pause_event (obs s) of
        None \<Rightarrow> None
      | Some (False, rest) \<Rightarrow> Some (Inl (s\<lparr>obs := rest\<rparr>))
      | Some (True, rest) \<Rightarrow>
          (case wait_if rate_limit_detected rest of
             None \<Rightarrow> None
           | Some (False, rest2) \<Rightarrow> Some (Inl (s\<lparr>obs := rest2\<rparr>))
           | Some (True, rest2) \<Rightarrow> map_option Inr (drain_pending (s\<lparr>obs := rest2\<rparr>))))"

text \<open>
  The start of the \<open>try\<close> block: the delay, waited only if it exceeds one second, and
  the request, whose outcome \<open>f\<close> is the next one of the script.
\<close>

definition load_page :: "page_outcome \<Rightarrow> 'd run_state \<Rightarrow> 'd run_state" where
  "load_page f s =
     (let delay_time = calculate_delay (page_number s)
      in s\<lparr>log := log s @ (if delay_time > 1 then [Sleep delay_time] else [])
                        @ [GetPage (page_number s) f]\<rparr>)"

definition page_url :: "string \<Rightarrow> int \<Rightarrow> string" where
  "page_url base_url page = base_url @ ''&p='' @ str_int page"

text \<open>Which \<open>return\<close> ended the run.\<close>

datatype status = Success | FatalHttp | UnexpectedError | Cancelled

fun fetch_workshop_items ::
  "string \<Rightarrow> page_outcome list \<Rightarrow> 'd run_state \<Rightarrow> (status \<times> 'd run_state) option" where
  "fetch_workshop_items base_url [] s = None"
| "fetch_workshop_items base_url (f # fs) s =
     (case loop_head s of
        None \<Rightarrow> None
      | Some (Inl s1) \<Rightarrow> Some (Cancelled, s1)
      | Some (Inr s1) \<Rightarrow>
          (let s2 = load_page f s1; page = page_number s2 in
           case f of
             Listing workshop_items \<Rightarrow>
               if workshop_items = [] then
                 (if pending_items s2 \<noteq> []
                  then map_option (Pair Success) (process_final_pending_items s2)
                  else Some (Success, s2))
               else
                 (case page_batches page 0 (batches workshop_items) s2 of
                    None \<Rightarrow> None
                  | Some s3 \<Rightarrow> fetch_workshop_items base_url fs (s3\<lparr>page_number := page + 1\<rparr>))
           | HttpError code e \<Rightarrow>
               if code = 429 then
                 (let s3 = s2\<lparr>log := log s2 @
                        [ErrorPut (''429 Too Many Requests on page '' @ str_int page
                           @ ''. URL: '' @ page_url base_url page)]\<rparr>
                  in case wait_while blocking (obs s3) of
                       None \<Rightarrow> None
                     | Some (False, rest) \<Rightarrow> Some (Cancelled, s3\<lparr>obs := rest\<rparr>)
                     | Some (True, rest) \<Rightarrow> fetch_workshop_items base_url fs (s3\<lparr>obs := rest\<rparr>))
               else
                 Some (FatalHttp, s2\<lparr>log := log s2 @
                   [ErrorPut (''HTTP Error '' @ str_nat code @ '' on page '' @ str_int page
                      @ '': '' @ e)]\<rparr>)
           | RequestFailed e \<Rightarrow>
               (let s3 = s2\<lparr>log := log s2 @
                      [ErrorPut (''Request failed on page '' @ str_int page @ '': '' @ e)]\<rparr>
                in case wait_while pause_event (obs s3) of
                     None \<Rightarrow> None
                   | Some (False, rest) \<Rightarrow> Some (Cancelled, s3\<lparr>obs := rest\<rparr>)
                   | Some (True, rest) \<Rightarrow> fetch_workshop_items base_url fs (s3\<lparr>obs := rest\<rparr>))
           | Unexpected e \<Rightarrow>
               Some (UnexpectedError, s2\<lparr>log := log s2 @
                 [ErrorPut (''Unexpected error on page '' @ str_int page @ '': '' @ e)]\<rparr>)))"

declare fetch_workshop_items.simps [simp del]

subsection \<open>\<open>check_for_errors\<close> on the main thread\<close>

text \<open>
  One pass over the messages of the queue. The second component counts the calls of
  \<open>handle_auto_pause\<close> the pass has scheduled with \<open>root.after(0, ...)\<close>; they run
  after the pass.
\<close>

fun check_for_errors :: "ctrl \<Rightarrow> string list \<Rightarrow> ctrl \<times> nat" where
  "check_for_errors c [] = (c, 0)"
| "check_for_errors c (error_msg # queue) =
     (if contains ''429'' error_msg \<or> contains ''Too Many Requests'' error_msg then
        (let c1 = c\<lparr>rate_limit_detected := True, auto_paused := True\<rparr>;
             (c2, n) = check_for_errors c1 queue
         in (c2, (if \<not> is_paused c then 1 else 0) + n))
      else check_for_errors c queue)"

definition run_scheduled :: "ctrl \<times> nat \<Rightarrow> ctrl" where
  "run_scheduled cn = ((handle_auto_pause ^^ snd cn) (fst cn))"

subsection \<open>Reading the log, and what is held\<close>

text \<open>
  \<open>fetched\<close> lists the page requests of a log with their outcomes; \<open>completed\<close> the
  pages that came back with items (those are the pages the worker processes);
  \<open>listed\<close> the entries of all items found on listing pages. \<open>key\<close> identifies a
  discovered item by the item and its page (the index stored with a retry entry is
  the position in the batch in one code path and the position on the page in
  another). \<open>held\<close> is the multiset of the items that are in the records or in the
  retry queue.
\<close>

fun fetched :: "'d event list \<Rightarrow> (int \<times> page_outcome) list" where
  "fetched [] = []"
| "fetched (GetPage p f # lg) = (p, f) # fetched lg"
| "fetched (ev # lg) = fetched lg"

definition completed :: "'d event list \<Rightarrow> int list" where
  "completed lg = map fst (filter (\<lambda>(p, f). case f of Listing ws \<Rightarrow> ws \<noteq> [] | _ \<Rightarrow> False) (fetched lg))"


definition key :: "entry \<Rightarrow> item \<times> int" where
  "key e = (fst e, fst (snd e))"


subsection \<open>Concrete inputs\<close>

text \<open>
  Snapshots of a running and of an auto-paused controller, the state \<open>run_scraper\<close>
  starts a run from, and an item with a title and a link.
\<close>

definition running :: snapshot where
  "running = \<lparr>is_paused = False, pause_event = False, rate_limit_detected = False,
      auto_paused = False, thread_alive = True\<rparr>"

definition rate_limited :: snapshot where
  "rate_limited = \<lparr>is_paused = True, pause_event = True, rate_limit_detected = True,
      auto_paused = True, thread_alive = True\<rparr>"

text \<open>
  Names for what the statements about a batch speak of. An item is \<open>fetchable\<close> when
  \<open>if item_link:\<close> succeeds; \<open>record_of e st\<close> is the dict built for entry \<open>e\<close> from
  the stats \<open>st\<close>. The snapshots read for one item are those of the wait loop, of
  which the last one ends it, and the one read by \<open>fetch_item_details\<close>: \<open>polls w\<close>
  for \<open>w = (blocked, c1, c2)\<close>; \<open>delayed w\<close> says that the wait loop sees the flags
  block (thread alive) for the snapshots of \<open>blocked\<close> and then clear, and that they are
  clear at the fetch.
\<close>

definition fetchable :: "item \<Rightarrow> bool" where
  "fetchable it = (case anchor it of Href l \<Rightarrow> l \<noteq> [] | _ \<Rightarrow> False)"

definition record_of :: "entry \<Rightarrow> 'd \<Rightarrow> 'd item_record" where
  "record_of e st =
     \<lparr>Name = (case title (fst e) of None \<Rightarrow> ''Unknown'' | Some n \<Rightarrow> n), stats = st, origin = e\<rparr>"

definition polls :: "snapshot list \<times> snapshot \<times> snapshot \<Rightarrow> snapshot list" where
  "polls w = fst w @ [fst (snd w), snd (snd w)]"

definition delayed :: "snapshot list \<times> snapshot \<times> snapshot \<Rightarrow> bool" where
  "delayed w = (list_all (\<lambda>ob. blocking ob \<and> thread_alive ob) (fst w) \<and>
                \<not> blocking (fst (snd w)) \<and> \<not> blocking (snd (snd w)))"

text \<open>The flags of a controller state as a worker whose thread is alive reads them.\<close>

definition seen :: "ctrl \<Rightarrow> snapshot" where
  "seen c = \<lparr>is_paused = is_paused c, pause_event = pause_event c,
      rate_limit_detected = rate_limit_detected c, auto_paused = auto_paused c,
      thread_alive = True\<rparr>"

definition start :: "snapshot list \<Rightarrow> 'd detail_outcome list \<Rightarrow> 'd run_state" where
  "start script ds = \<lparr>page_number = 1, items = [], pending_items = [],
      processing_pending = False, obs = script, details = ds, log = []\<rparr>"

definition linked :: "string \<Rightarrow> string \<Rightarrow> item" where
  "linked n url = \<lparr>title = Some n, anchor = Href url\<rparr>"

text \<open>
  \<open>inner s s'\<close>: what every part of the worker other than the page request itself
  leaves alone or only extends.
\<close>

definition inner :: "'d run_state \<Rightarrow> 'd run_state \<Rightarrow> bool" where
  "inner s s' \<longleftrightarrow>
     page_number s' = page_number s \<and> fetched (log s') = fetched (log s) \<and>
     prefix (items s) (items s') \<and> set (obs s') \<subseteq> set (obs s) \<and>
     processing_pending s' = processing_pending s"

text \<open>
  The page cursor as the specification describes it (a second definition, following
  the specification's words, to compare the worker's requests with): the request goes
  to the page of the cursor; the cursor advances by one after a page with items, stays
  after a rate limit or a transient failure, and the walk ends with an empty page or a
  fatal error.
\<close>

fun spec_page_walk :: "int \<Rightarrow> page_outcome list \<Rightarrow> (int \<times> page_outcome) list" where
  "spec_page_walk p [] = []"
| "spec_page_walk p (f # fs) =
     (p, f) #
     (case f of
        Listing ws \<Rightarrow> if ws = [] then [] else spec_page_walk (p + 1) fs
      | HttpError code e \<Rightarrow> if code = 429 then spec_page_walk p fs else []
      | RequestFailed e \<Rightarrow> spec_page_walk p fs
      | Unexpected e \<Rightarrow> [])"

text \<open>
  Waits and page requests in a log. \<open>waits\<close> pairs every page request with the
  wait logged immediately before it, if there is one. A log is \<open>settled\<close> when it
  does not end in a wait (a wait is always followed by its request). \<open>calm s s'\<close>:
  from a settled log, the step leaves the log settled and adds no page request;
  \<open>waited\<close> is what \<open>load_page\<close> contributes to \<open>waits\<close>.
\<close>

fun is_sleep :: "'d event \<Rightarrow> bool" where
  "is_sleep (Sleep d) = True"
| "is_sleep ev = False"

definition settled :: "'d event list \<Rightarrow> bool" where
  "settled lg = (lg = [] \<or> \<not> is_sleep (last lg))"

fun waits :: "'d event list \<Rightarrow> (int \<times> real option) list" where
  "waits [] = []"
| "waits (Sleep d # GetPage p f # lg) = (p, Some d) # waits lg"
| "waits (GetPage p f # lg) = (p, None) # waits lg"
| "waits (ev # lg) = waits lg"

definition calm :: "'d run_state \<Rightarrow> 'd run_state \<Rightarrow> bool" where
  "calm s s' \<longleftrightarrow> (settled (log s) \<longrightarrow> settled (log s') \<and> waits (log s') = waits (log s))"

definition waited :: "int \<times> page_outcome \<Rightarrow> int \<times> real option" where
  "waited pf = (fst pf, if fst pf > 5 then Some (calculate_delay (fst pf)) else None)"

section \<open>Facts about the string functions\<close>

lemma str_split_nonempty: "str_split sep s \<noteq> []"
  by (induction sep s rule: str_split.induct) (auto split: list.splits)

lemma replace_no_occurrence:
  "old \<noteq> [] \<Longrightarrow> \<not> contains old s \<Longrightarrow> str_replace old new s = s"
  by (induction s) auto

lemma join_split: "sep \<noteq> [] \<Longrightarrow> str_join sep (str_split sep s) = s"
proof (induction sep s rule: str_split.induct)
  case (1 sep)
  then show ?case by simp
next
  case (2 sep c cs)
  show ?case
  proof (cases "prefix sep (c # cs)")
    case True
    have "str_split sep (drop (length sep) (c # cs)) \<noteq> []" by (rule str_split_nonempty)
    then obtain q qs where q: "str_split sep (drop (length sep) (c # cs)) = q # qs"
      by (cases "str_split sep (drop (length sep) (c # cs))") auto
    have j: "str_join sep (q # qs) = drop (length sep) (c # cs)"
      using "2.IH"(1) "2.prems" True q by simp
    have sp: "str_split sep (c # cs) = [] # q # qs"
      using True "2.prems" q by simp
    have "sep @ drop (length sep) (c # cs) = c # cs"
      using True by (metis append_eq_conv_conj prefixE)
    then show ?thesis unfolding sp using j by simp
  next
    case False
    obtain q qs where q: "str_split sep cs = q # qs"
      using str_split_nonempty [of sep cs] by (cases "str_split sep cs") auto
    have "str_join sep (q # qs) = cs" using "2.IH"(2) "2.prems" False q by simp
    then show ?thesis using False q by (cases qs) auto
  qed
qed

lemma split_two_parts:
  "sep \<noteq> [] \<Longrightarrow> contains sep s \<Longrightarrow> \<exists>p0 p1 rest. str_split sep s = p0 # p1 # rest"
proof (induction sep s rule: str_split.induct)
  case (1 sep)
  then show ?case by simp
next
  case (2 sep c cs)
  show ?case
  proof (cases "prefix sep (c # cs)")
    case True
    obtain q qs where q: "str_split sep (drop (length sep) (c # cs)) = q # qs"
      using str_split_nonempty [of sep "drop (length sep) (c # cs)"]
      by (cases "str_split sep (drop (length sep) (c # cs))") auto
    then show ?thesis using True "2.prems" by simp
  next
    case False
    then have "contains sep cs" using "2.prems" by simp
    then obtain p0 p1 rest where "str_split sep cs = p0 # p1 # rest"
      using "2.IH"(2) "2.prems" False by blast
    then show ?thesis using False by simp
  qed
qed

lemma is_digit_digit_chr: "n < 10 \<Longrightarrow> is_digit (digit_chr n)"
proof -
  assume "n < 10"
  then have "n \<in> {0,1,2,3,4,5,6,7,8,9}" by auto
  then show ?thesis by (auto simp: is_digit_def digit_chr_def)
qed

lemma str_nat_19: "str_nat 19 = ''19''" and str_nat_20: "str_nat 20 = ''20''"
  by (simp_all add: str_nat.simps digit_chr_def)

lemma str_nat_year:
  assumes "1900 \<le> y" "y < 2100"
  shows "\<exists>a b c d. str_nat y = [a, b, c, d] \<and> ([a, b] = ''19'' \<or> [a, b] = ''20'')
           \<and> is_digit c \<and> is_digit d"
proof -
  have h: "y div 100 = 19 \<or> y div 100 = 20" using assms by auto
  have e: "str_nat y = str_nat (y div 100) @ [digit_chr (y div 10 mod 10), digit_chr (y mod 10)]"
  proof -
    have d: "y div 10 div 10 = y div 100" by arith
    have "str_nat y = str_nat (y div 10) @ [digit_chr (y mod 10)]"
      using assms by (subst str_nat.simps) simp
    moreover have "str_nat (y div 10) = str_nat (y div 100) @ [digit_chr (y div 10 mod 10)]"
      using assms d by (subst str_nat.simps) simp
    ultimately show ?thesis by simp
  qed
  show ?thesis using h e by (auto simp: str_nat_19 str_nat_20 is_digit_digit_chr)
qed

lemma year_search_append:
  "year_search (if a = [] then pw else is_word (last a)) t \<Longrightarrow> year_search pw (a @ t)"
proof (induction a arbitrary: pw)
  case Nil
  then show ?case by simp
next
  case (Cons x a)
  have "year_search (if a = [] then is_word x else is_word (last a)) t"
    using Cons.prems by (cases "a = []") simp_all
  then have "year_search (is_word x) (a @ t)" by (rule Cons.IH)
  then show ?case by simp
qed

lemma year_search_stamp:
  assumes "1900 \<le> y" "y < 2100"
  shows "year_search pw (a @ '', '' @ str_nat y @ '', '' @ b)"
proof -
  obtain c1 c2 c3 c4 where y: "str_nat y = [c1, c2, c3, c4]"
    "[c1, c2] = ''19'' \<or> [c1, c2] = ''20''" "is_digit c3" "is_digit c4"
    using str_nat_year [OF assms] by blast
  have "year_here (str_nat y @ '', '' @ b)"
    using y by (auto simp: year_here_def is_word_def)
  then have "year_search pw' ('', '' @ str_nat y @ '', '' @ b)" for pw'
    using y by (auto simp: is_word_def)
  then show ?thesis
    using year_search_append [where a = a and t = "'', '' @ str_nat y @ '', '' @ b"] by simp
qed

lemma sep_chars_not_word:
  "\<not> is_word (CHR '' '')" "\<not> is_word (CHR ''@'')" "\<not> is_word (CHR '','')"
  by (simp_all add: is_word_def)

lemma year_here_first: "year_here (c # cs) \<Longrightarrow> c = CHR ''1'' \<or> c = CHR ''2''"
  by (auto simp: year_here_def split: list.splits)

lemma sep_chars_not_year:
  "\<not> year_here (CHR '' '' # cs)" "\<not> year_here (CHR ''@'' # cs)" "\<not> year_here (CHR '','' # cs)"
  using year_here_first by fastforce+

lemma replace_sep_Cons:
  "str_replace '' @ '' '', '' (c # cs) =
     (if c = CHR '' '' \<and> take 2 cs = ''@ '' then '', '' @ str_replace '' @ '' '', '' (drop 2 cs)
      else c # str_replace '' @ '' '', '' cs)"
proof (cases cs)
  case Nil
  then show ?thesis by simp
next
  case (Cons d ds)
  then show ?thesis by (cases ds) auto
qed

lemma replace_sep_hd_nonword:
  "(case s of [] \<Rightarrow> True | e # _ \<Rightarrow> \<not> is_word e) \<Longrightarrow>
   (case str_replace '' @ '' '', '' s of [] \<Rightarrow> True | e # _ \<Rightarrow> \<not> is_word e)"
  by (cases s) (auto simp: replace_sep_Cons sep_chars_not_word simp del: str_replace.simps(2))

lemma year_here_replace:
  assumes "year_here s"
  shows "year_here (str_replace '' @ '' '', '' s)"
proof -
  obtain a b c d rest where s: "s = a # b # c # d # rest"
    and ab: "[a, b] = ''19'' \<or> [a, b] = ''20''" and cd: "is_digit c" "is_digit d"
    and r: "(case rest of [] \<Rightarrow> True | e # _ \<Rightarrow> \<not> is_word e)"
    using assms by (auto simp: year_here_def split: list.splits)
  have ns: "a \<noteq> CHR '' ''" "b \<noteq> CHR '' ''" "c \<noteq> CHR '' ''" "d \<noteq> CHR '' ''"
    using ab cd by (auto simp: is_digit_def)
  have "str_replace '' @ '' '', '' s = a # b # c # d # str_replace '' @ '' '', '' rest"
    unfolding s using ns by (simp add: replace_sep_Cons del: str_replace.simps)
  then show ?thesis
    using ab cd replace_sep_hd_nonword [OF r] by (simp add: year_here_def)
qed

lemma year_search_replace_gen:
  "old = '' @ '' \<Longrightarrow> new = '', '' \<Longrightarrow> year_search pw s \<Longrightarrow>
   year_search pw (str_replace old new s)"
proof (induction old new s arbitrary: pw rule: str_replace.induct)
  case (1 old new)
  then show ?case by simp
next
  case (2 old new c cs)
  note old = \<open>old = '' @ ''\<close> and new = \<open>new = '', ''\<close>
  show ?case
  proof (cases "prefix old (c # cs)")
    case True
    then obtain r where r: "c # cs = '' @ '' @ r" using old by (auto simp: prefix_def)
    then have dr: "drop (length old) (c # cs) = r" using old by simp
    have "year_search False r"
      using "2.prems"(3) unfolding r by (simp add: sep_chars_not_word sep_chars_not_year)
    then have ys: "year_search False (drop (length old) (c # cs))" unfolding dr .
    have ne: "old \<noteq> []" using old by simp
    have "year_search False (str_replace old new (drop (length old) (c # cs)))"
      using "2.IH"(2) [OF ne True old new ys] .
    then have "year_search False (str_replace old new r)" unfolding dr .
    moreover have "str_replace old new (c # cs)
        = new @ str_replace old new (drop (length old) (c # cs))"
      using True ne by simp
    then have "str_replace old new (c # cs) = '', '' @ str_replace old new r"
      unfolding dr new .
    ultimately show ?thesis by (simp add: sep_chars_not_word sep_chars_not_year)
  next
    case False
    have ne: "old \<noteq> []" using old by simp
    have e: "str_replace old new (c # cs) = c # str_replace old new cs"
      using False ne by simp
    from "2.prems"(3) have "(\<not> pw \<and> year_here (c # cs)) \<or> year_search (is_word c) cs" by simp
    then show ?thesis
    proof
      assume h: "\<not> pw \<and> year_here (c # cs)"
      then have "year_here (str_replace old new (c # cs))"
        unfolding old new by (simp add: year_here_replace del: str_replace.simps)
      then show ?thesis using h e by simp
    next
      assume "year_search (is_word c) cs"
      then have "year_search (is_word c) (str_replace old new cs)"
        using "2.IH"(3) [OF ne False old new] by simp
      then show ?thesis using e by simp
    qed
  qed
qed

lemma has_year_replace: "has_year s \<Longrightarrow> has_year (str_replace '' @ '' '', '' s)"
  unfolding has_year_def by (rule year_search_replace_gen) simp_all

lemma replace_digits:
  assumes "old \<noteq> []" "filter is_digit old = []" "filter is_digit new = []"
  shows "filter is_digit (str_replace old new s) = filter is_digit s"
  using assms
proof (induction old new s rule: str_replace.induct)
  case (1 old new)
  then show ?case by simp
next
  case (2 old new c cs)
  show ?case
  proof (cases "prefix old (c # cs)")
    case True
    then obtain r where r: "c # cs = old @ r" by (auto simp: prefix_def)
    then have dr: "drop (length old) (c # cs) = r" by simp
    have "filter is_digit (str_replace old new r) = filter is_digit r"
      using "2.IH"(2) "2.prems" True dr by simp
    moreover have "str_replace old new (c # cs) = new @ str_replace old new r"
      using True dr "2.prems" by simp
    moreover have "filter is_digit (c # cs) = filter is_digit r"
      unfolding r using "2.prems" by simp
    ultimately show ?thesis using "2.prems" by simp
  next
    case False
    then show ?thesis using "2.IH"(3) "2.prems" by simp
  qed
qed

lemma replace_sep_digits:
  "filter is_digit (str_replace '' @ '' '', '' s) = filter is_digit s"
  by (rule replace_digits) (simp_all add: is_digit_def)

lemma contains_append_left: "contains (a @ b) s \<Longrightarrow> contains a s"
  by (induction s) (auto simp: prefix_def)

lemma no_year_digits:
  assumes "\<not> contains ''19'' s" "\<not> contains ''20'' s"
  shows "\<not> any_year_in s"
proof
  assume "any_year_in s"
  then have "list_ex (\<lambda>year. contains (str_nat year) s) [1900..<2100]"
    unfolding any_year_in_def .
  then obtain y where m: "y \<in> set [1900..<2100]" and c: "contains (str_nat y) s"
    unfolding list_ex_iff by blast
  from m have "y \<in> {1900..<2100}" by (simp only: set_upt)
  then have y: "1900 \<le> y" "y < 2100" "contains (str_nat y) s"
    using c by (simp_all only: atLeastLessThan_iff)
  obtain a b c d where "str_nat y = [a, b, c, d]" "[a, b] = ''19'' \<or> [a, b] = ''20''"
    using str_nat_year [OF y(1,2)] by blast
  then have "str_nat y = ''19'' @ [c, d] \<or> str_nat y = ''20'' @ [c, d]" by auto
  then show False using y(3) assms contains_append_left by metis
qed

lemma fix_date_format_fixed:
  assumes "r \<in> set [''Unknown'', ''? KB''] \<or> has_year r" "\<not> contains '' @ '' r"
  shows "fix_date_format y r = Some r"
proof -
  have "str_replace '' @ '' '', '' r = r"
    using assms(2) by (intro replace_no_occurrence) simp_all
  then show ?thesis using assms(1) unfolding fix_date_format_def by auto
qed

lemma fix_date_format_total: "\<exists>r. fix_date_format y s = Some r"
proof -
  have a: "contains '' @ '' s \<Longrightarrow> \<exists>p0 p1 rest. str_split '' @ '' s = p0 # p1 # rest"
    by (rule split_two_parts) simp_all
  obtain q qs where q: "str_split '', '' s = q # qs"
    using str_split_nonempty [of "'', ''" s] by (cases "str_split '', '' s") auto
  show ?thesis
    unfolding fix_date_format_def using a q by (auto simp del: str_split.simps)
qed

lemma contains_length: "contains sub s \<Longrightarrow> length sub \<le> length s"
  by (induction s) (auto dest: prefix_length_le)

lemma split_first:
  assumes "sep \<noteq> []" "contains sep s"
  shows "\<exists>a r. s = a @ sep @ r \<and> \<not> contains sep (a @ butlast sep) \<and>
           str_split sep s = a # str_split sep r"
  using assms
proof (induction sep s rule: str_split.induct)
  case (1 sep)
  then show ?case by simp
next
  case (2 sep c cs)
  show ?case
  proof (cases "prefix sep (c # cs)")
    case True
    then obtain r where r: "c # cs = sep @ r" by (auto simp: prefix_def)
    then have dr: "drop (length sep) (c # cs) = r" by simp
    have "\<not> contains sep (butlast sep)"
      using contains_length [of sep "butlast sep"] "2.prems"(1) by (cases sep) auto
    moreover have "str_split sep (c # cs) = [] # str_split sep r"
      using True "2.prems"(1) dr by simp
    ultimately show ?thesis using r by (intro exI [of _ "[]"] exI [of _ r]) simp
  next
    case False
    then have "contains sep cs" using "2.prems" by simp
    then obtain a r where a: "cs = a @ sep @ r" "\<not> contains sep (a @ butlast sep)"
        "str_split sep cs = a # str_split sep r"
      using "2.IH"(2) "2.prems"(1) False by blast
    have "\<not> prefix sep (c # a @ butlast sep)"
    proof
      assume "prefix sep (c # a @ butlast sep)"
      then have "prefix sep ((c # a @ butlast sep) @ ([last sep] @ r))"
        by (rule prefix_prefix)
      moreover have "(c # a @ butlast sep) @ ([last sep] @ r) = c # cs"
        using a(1) "2.prems"(1) by simp
      ultimately show False using False by simp
    qed
    then have "\<not> contains sep ((c # a) @ butlast sep)" using a(2) by simp
    moreover have "str_split sep (c # cs) = (c # a) # str_split sep r"
      using False a(3) by simp
    moreover have "c # cs = (c # a) @ sep @ r" using a(1) by simp
    ultimately show ?thesis by blast
  qed
qed

lemma split_hd: "sep \<noteq> [] \<Longrightarrow> \<exists>rest. str_split sep s = before_first sep s # rest"
proof (induction sep s rule: str_split.induct)
  case (1 sep)
  then show ?case by simp
next
  case (2 sep c cs)
  show ?case
  proof (cases "prefix sep (c # cs)")
    case True
    then show ?thesis using "2.prems" by simp
  next
    case False
    then obtain rest where "str_split sep cs = before_first sep cs # rest"
      using "2.IH"(2) "2.prems" by blast
    then show ?thesis using False by simp
  qed
qed

lemma fix_date_format_at:
  assumes "s \<notin> set [''Unknown'', ''? KB'']" "\<not> has_year s" "contains '' @ '' s"
  shows "\<exists>a r. s = a @ '' @ '' @ r \<and> \<not> contains '' @ '' (a @ '' @'') \<and>
           fix_date_format y s
             = Some (a @ '', '' @ str_nat y @ '', '' @ before_first '' @ '' r)"
proof -
  obtain a r where a: "s = a @ '' @ '' @ r" "\<not> contains '' @ '' (a @ butlast '' @ '')"
      "str_split '' @ '' s = a # str_split '' @ '' r"
    using split_first [of "'' @ ''" s] assms(3) by auto
  obtain rest where r: "str_split '' @ '' r = before_first '' @ '' r # rest"
    using split_hd [of "'' @ ''" r] by auto
  have "fix_date_format y s = Some (a @ '', '' @ str_nat y @ '', '' @ before_first '' @ '' r)"
    using assms a(3) r by (simp add: fix_date_format_def)
  then show ?thesis using a(1,2) by auto
qed

lemma fix_date_format_comma:
  assumes "s \<notin> set [''Unknown'', ''? KB'']" "\<not> has_year s" "\<not> contains '' @ '' s"
    "contains '', '' s" "\<not> any_year_in s"
  shows "\<exists>a r. s = a @ '', '' @ r \<and> \<not> contains '', '' (a @ '','') \<and>
           fix_date_format y s = Some (a @ '', '' @ str_nat y @ '', '' @ r)"
proof -
  obtain a r where a: "s = a @ '', '' @ r" "\<not> contains '', '' (a @ butlast '', '')"
      "str_split '', '' s = a # str_split '', '' r"
    using split_first [of "'', ''" s] assms(4) by auto
  have j: "str_join '', '' (str_split '', '' r) = r" by (rule join_split) simp
  have l: "length (str_split '', '' s) \<ge> 2"
    using a(3) str_split_nonempty [of "'', ''" r] by (cases "str_split '', '' r") auto
  have "fix_date_format y s = Some (a @ '', '' @ str_nat y @ '', '' @ r)"
    using assms a(3) j l by (simp add: fix_date_format_def del: str_split.simps)
  then show ?thesis using a(1,2) by auto
qed

lemma fix_date_format_other:
  assumes "s \<notin> set [''Unknown'', ''? KB'']" "\<not> has_year s" "\<not> contains '' @ '' s"
    "\<not> contains '', '' s \<or> any_year_in s"
  shows "fix_date_format y s = Some s"
proof -
  have "str_replace '' @ '' '', '' s = s"
    using assms(3) by (intro replace_no_occurrence) simp_all
  then show ?thesis using assms by (auto simp: fix_date_format_def)
qed

section \<open>Facts about the worker\<close>

lemma fetched_append [simp]: "fetched (a @ b) = fetched a @ fetched b"
  by (induction a rule: fetched.induct) auto

lemma inner_refl [simp]: "inner s s"
  by (simp add: inner_def)

lemma inner_trans: "inner s s1 \<Longrightarrow> inner s1 s2 \<Longrightarrow> inner s s2"
  unfolding inner_def by (auto intro: prefix_order.trans)

lemma wait_while_sub: "wait_while c script = Some (b, rest) \<Longrightarrow> set rest \<subseteq> set script"
  by (induction script) (auto split: if_splits)

lemma wait_if_sub: "wait_if c script = Some (b, rest) \<Longrightarrow> set rest \<subseteq> set script"
  unfolding wait_if_def by (auto split: list.splits if_splits dest: wait_while_sub)

lemma wait_while_alive:
  "wait_while c script = Some (b, rest) \<Longrightarrow> \<forall>ob \<in> set script. thread_alive ob \<Longrightarrow> b"
  by (induction script) (auto split: if_splits)

lemma wait_if_alive:
  "wait_if c script = Some (b, rest) \<Longrightarrow> \<forall>ob \<in> set script. thread_alive ob \<Longrightarrow> b"
  unfolding wait_if_def by (auto split: list.splits if_splits dest: wait_while_alive)

lemma fetch_item_details_frame:
  assumes "fetch_item_details url s = Some (r, s')"
  shows "inner s s' \<and> items s' = items s \<and> pending_items s' = pending_items s"
  using assms unfolding fetch_item_details_def inner_def
  by (auto split: list.splits if_splits detail_outcome.splits simp: Let_def)

lemma try_item_frame:
  assumes "try_item m e s = Some (rs, s')"
  shows "inner s s' \<and> items s' = items s"
proof (cases "anchor (fst e)")
  case NoAnchor
  then show ?thesis using assms by (simp add: try_item_def)
next
  case NoHref
  then show ?thesis using assms by (auto simp: try_item_def inner_def)
next
  case (Href l)
  show ?thesis
  proof (cases "l = []")
    case True
    then show ?thesis using assms Href by (simp add: try_item_def)
  next
    case False
    then obtain r s1 where f: "fetch_item_details l s = Some (r, s1)"
      using assms Href by (auto simp: try_item_def split: option.splits)
    note fr = fetch_item_details_frame [OF f]
    show ?thesis
      using assms Href False f fr
      by (cases r) (auto simp: try_item_def inner_def)
  qed
qed

lemma process_entries_frame:
  "process_entries m es rs s = Some (rs', s') \<Longrightarrow>
     inner s s' \<and> items s' = items s \<and> prefix rs rs'"
proof (induction es arbitrary: rs s)
  case Nil
  then show ?case by simp
next
  case (Cons e es)
  from Cons.prems obtain b rest where w: "wait_while blocking (obs s) = Some (b, rest)"
    by (auto split: option.splits)
  show ?case
  proof (cases b)
    case False
    then show ?thesis using Cons.prems w wait_while_sub [OF w] by (auto simp: inner_def)
  next
    case True
    then obtain r s1 where t: "try_item m e (s\<lparr>obs := rest\<rparr>) = Some (r, s1)"
      and p: "process_entries m es (rs @ r) s1 = Some (rs', s')"
      using Cons.prems w by (auto split: option.splits)
    have a: "inner (s\<lparr>obs := rest\<rparr>) s1 \<and> items s1 = items (s\<lparr>obs := rest\<rparr>)"
      by (rule try_item_frame [OF t])
    have b: "inner s1 s' \<and> items s' = items s1 \<and> prefix (rs @ r) rs'"
      by (rule Cons.IH [OF p])
    have c: "inner s (s\<lparr>obs := rest\<rparr>)" using wait_while_sub [OF w] by (auto simp: inner_def)
    have "inner s s'" using a b c inner_trans by blast
    moreover have "prefix rs rs'" using b by (meson append_prefixD)
    ultimately show ?thesis using a b by simp
  qed
qed

lemma inner_obs_update:
  "set rest \<subseteq> set (obs s) \<Longrightarrow> inner s (s\<lparr>obs := rest\<rparr>)"
  by (simp add: inner_def)

lemma drain_batches_frame:
  "drain_batches bs s = Some s' \<Longrightarrow> inner s s'"
proof (induction bs arbitrary: s)
  case Nil
  then show ?case by simp
next
  case (Cons batch bs)
  from Cons.prems obtain ob rest where o: "obs s = ob # rest"
    by (cases "obs s") auto
  show ?case
  proof (cases "blocking ob")
    case True
    then have "drain_batches bs (s\<lparr>obs := rest, pending_items := pending_items s @ batch\<rparr>) = Some s'"
      using Cons.prems o by simp
    then have "inner (s\<lparr>obs := rest, pending_items := pending_items s @ batch\<rparr>) s'"
      by (rule Cons.IH)
    moreover have "inner s (s\<lparr>obs := rest, pending_items := pending_items s @ batch\<rparr>)"
      using o by (auto simp: inner_def)
    ultimately show ?thesis by (rule inner_trans [rotated])
  next
    case False
    then obtain rs s1 where p: "process_entries Retry batch [] (s\<lparr>obs := rest\<rparr>) = Some (rs, s1)"
      and d: "drain_batches bs (s1\<lparr>items := items s1 @ rs\<rparr>) = Some s'"
      using Cons.prems o by (auto simp: process_item_batch_pending_def split: option.splits)
    have a: "inner (s\<lparr>obs := rest\<rparr>) s1" using process_entries_frame [OF p] by simp
    have b: "inner s1 (s1\<lparr>items := items s1 @ rs\<rparr>)" by (simp add: inner_def)
    have c: "inner (s1\<lparr>items := items s1 @ rs\<rparr>) s'" by (rule Cons.IH [OF d])
    have e: "inner s (s\<lparr>obs := rest\<rparr>)" using o by (auto simp: inner_def)
    show ?thesis using a b c e inner_trans by blast
  qed
qed

lemma drain_pending_frame:
  assumes "drain_pending s = Some s'"
  shows "inner s s'"
proof (cases "pending_items s \<noteq> [] \<and> \<not> processing_pending s")
  case True
  then obtain s1 where d: "drain_batches (concat (map batches (group_pages (pending_items s))))
        (s\<lparr>processing_pending := True, pending_items := []\<rparr>) = Some s1"
    and e: "s' = s1\<lparr>processing_pending := False\<rparr>"
    using assms by (auto simp: drain_pending_def split: option.splits)
  have "inner (s\<lparr>processing_pending := True, pending_items := []\<rparr>) s1"
    by (rule drain_batches_frame [OF d])
  then show ?thesis using True e by (auto simp: inner_def)
next
  case False
  then show ?thesis using assms by (auto simp: drain_pending_def)
qed

lemma page_batches_frame:
  "page_batches page i bs s = Some s' \<Longrightarrow> inner s s'"
proof (induction bs arbitrary: s i)
  case Nil
  then show ?case by simp
next
  case (Cons batch bs)
  from Cons.prems obtain ob rest where o: "obs s = ob # rest"
    by (cases "obs s") auto
  show ?case
  proof (cases "blocking ob")
    case True
    then have "page_batches page (i + 4) bs
        (s\<lparr>obs := rest, pending_items := pending_items s @ enumerate_entries batch page i\<rparr>) = Some s'"
      using Cons.prems o by simp
    then have "inner (s\<lparr>obs := rest,
        pending_items := pending_items s @ enumerate_entries batch page i\<rparr>) s'"
      by (rule Cons.IH)
    moreover have "inner s (s\<lparr>obs := rest,
        pending_items := pending_items s @ enumerate_entries batch page i\<rparr>)"
      using o by (auto simp: inner_def)
    ultimately show ?thesis by (rule inner_trans [rotated])
  next
    case False
    then obtain rs s1 where
      p: "process_entries Fresh (enumerate_entries batch page 0) [] (s\<lparr>obs := rest\<rparr>) = Some (rs, s1)"
      and d: "page_batches page (i + 4) bs (s1\<lparr>items := items s1 @ rs\<rparr>) = Some s'"
      using Cons.prems o by (auto simp: process_item_batch_def split: option.splits)
    have a: "inner (s\<lparr>obs := rest\<rparr>) s1" using process_entries_frame [OF p] by simp
    have b: "inner s1 (s1\<lparr>items := items s1 @ rs\<rparr>)" by (simp add: inner_def)
    have c: "inner (s1\<lparr>items := items s1 @ rs\<rparr>) s'" by (rule Cons.IH [OF d])
    have e: "inner s (s\<lparr>obs := rest\<rparr>)" using o by (auto simp: inner_def)
    show ?thesis using a b c e inner_trans by blast
  qed
qed

lemma process_final_frame:
  assumes "process_final_pending_items s = Some s'"
  shows "inner s s'"
proof (cases "pending_items s = []")
  case True
  then show ?thesis using assms by (simp add: process_final_pending_items_def)
next
  case False
  then obtain rs s1 where
    p: "process_entries Final (pending_items s) [] (s\<lparr>pending_items := []\<rparr>) = Some (rs, s1)"
    and e: "s' = s1\<lparr>items := items s1 @ rs\<rparr>"
    using assms by (auto simp: process_final_pending_items_def split: option.splits)
  have "inner (s\<lparr>pending_items := []\<rparr>) s1" using process_entries_frame [OF p] by simp
  then show ?thesis using e by (auto simp: inner_def)
qed

lemma loop_head_frame:
  assumes "loop_head s = Some r"
  shows "case r of Inl s1 \<Rightarrow> inner s s1 \<and> items s1 = items s \<and> pending_items s1 = pending_items s
         | Inr s1 \<Rightarrow> inner s s1"
proof -
  from assms obtain b1 r1 where w1: "wait_if pause_event (obs s) = Some (b1, r1)"
    by (auto simp: loop_head_def split: option.splits)
  note s1 = wait_if_sub [OF w1]
  show ?thesis
  proof (cases b1)
    case False
    then show ?thesis using assms w1 s1 by (auto simp: loop_head_def inner_def)
  next
    case True
    then obtain b2 r2 where w2: "wait_if rate_limit_detected r1 = Some (b2, r2)"
      using assms w1 by (auto simp: loop_head_def split: option.splits)
    note s2 = wait_if_sub [OF w2]
    show ?thesis
    proof (cases b2)
      case False
      then show ?thesis using assms w1 w2 True s1 s2 by (auto simp: loop_head_def inner_def)
    next
      case b2: True
      then obtain s3 where d: "drain_pending (s\<lparr>obs := r2\<rparr>) = Some s3" and r: "r = Inr s3"
        using assms w1 w2 True by (auto simp: loop_head_def)
      have "inner (s\<lparr>obs := r2\<rparr>) s3" by (rule drain_pending_frame [OF d])
      moreover have "inner s (s\<lparr>obs := r2\<rparr>)" using s1 s2 by (auto simp: inner_def)
      ultimately show ?thesis using r inner_trans by auto
    qed
  qed
qed

lemma load_page_simps [simp]:
  "page_number (load_page f s) = page_number s"
  "items (load_page f s) = items s"
  "pending_items (load_page f s) = pending_items s"
  "obs (load_page f s) = obs s"
  "details (load_page f s) = details s"
  "processing_pending (load_page f s) = processing_pending s"
  "fetched (log (load_page f s)) = fetched (log s) @ [(page_number s, f)]"
  by (simp_all add: load_page_def Let_def)

lemma run_walk:
  "fetch_workshop_items url fs s = Some (st, s') \<Longrightarrow> st \<noteq> Cancelled \<Longrightarrow>
     fetched (log s') = fetched (log s) @ spec_page_walk (page_number s) fs"
proof (induction fs arbitrary: s)
  case Nil
  then show ?case by (simp add: fetch_workshop_items.simps)
next
  case (Cons f fs)
  note run = Cons.prems(1) [unfolded fetch_workshop_items.simps]
  from run obtain s1 where h: "loop_head s = Some (Inr s1)"
    using Cons.prems(2) by (auto split: option.splits sum.splits)
  have i1: "inner s s1" using loop_head_frame [OF h] by simp
  then have p1: "page_number s1 = page_number s" and f1: "fetched (log s1) = fetched (log s)"
    by (simp_all add: inner_def)
  let ?s2 = "load_page f s1"
  let ?p = "page_number s"
  have f2: "fetched (log ?s2) = fetched (log s) @ [(?p, f)]" using p1 f1 by simp
  show ?case
  proof (cases f)
    case (Listing ws)
    show ?thesis
    proof (cases "ws = []")
      case True
      show ?thesis
      proof (cases "pending_items ?s2 \<noteq> []")
        case pt: True
        then obtain s3 where fp: "process_final_pending_items ?s2 = Some s3" and e: "s' = s3"
          using run h Listing True by (auto simp: Let_def)
        have "fetched (log s3) = fetched (log ?s2)"
          using process_final_frame [OF fp] by (simp add: inner_def)
        then show ?thesis using e f2 Listing True by simp
      next
        case False
        then have "s' = ?s2" using run h Listing True by (auto simp: Let_def)
        then show ?thesis using f2 Listing True by simp
      qed
    next
      case False
      then obtain s3 where pb: "page_batches ?p 0 (batches ws) ?s2 = Some s3"
        and r: "fetch_workshop_items url fs (s3\<lparr>page_number := ?p + 1\<rparr>) = Some (st, s')"
        using run h Listing p1 by (auto simp: Let_def split: option.splits)
      have "fetched (log s3) = fetched (log ?s2)"
        using page_batches_frame [OF pb] by (simp add: inner_def)
      moreover have "fetched (log s') = fetched (log (s3\<lparr>page_number := ?p + 1\<rparr>))
          @ spec_page_walk (page_number (s3\<lparr>page_number := ?p + 1\<rparr>)) fs"
        by (rule Cons.IH [OF r Cons.prems(2)])
      ultimately show ?thesis using f2 Listing False by simp
    qed
  next
    case (HttpError code e)
    show ?thesis
    proof (cases "code = 429")
      case True
      define s3 where "s3 = ?s2\<lparr>log := log ?s2 @
          [ErrorPut (''429 Too Many Requests on page '' @ str_int ?p
             @ ''. URL: '' @ page_url url ?p)]\<rparr>"
      from run h HttpError True p1 obtain rest where
        w: "wait_while blocking (obs s3) = Some (True, rest)"
        and r: "fetch_workshop_items url fs (s3\<lparr>obs := rest\<rparr>) = Some (st, s')"
        using Cons.prems(2)
        by (auto simp: Let_def s3_def split: option.splits bool.splits)
      have "fetched (log s') = fetched (log (s3\<lparr>obs := rest\<rparr>))
          @ spec_page_walk (page_number (s3\<lparr>obs := rest\<rparr>)) fs"
        by (rule Cons.IH [OF r Cons.prems(2)])
      then show ?thesis using f2 HttpError True p1 by (simp add: s3_def)
    next
      case False
      then show ?thesis using run h HttpError f2 by (auto simp: Let_def)
    qed
  next
    case (RequestFailed e)
    define s3 where "s3 = ?s2\<lparr>log := log ?s2 @
        [ErrorPut (''Request failed on page '' @ str_int ?p @ '': '' @ e)]\<rparr>"
    from run h RequestFailed p1 obtain rest where
      w: "wait_while pause_event (obs s3) = Some (True, rest)"
      and r: "fetch_workshop_items url fs (s3\<lparr>obs := rest\<rparr>) = Some (st, s')"
      using Cons.prems(2)
      by (auto simp: Let_def s3_def split: option.splits bool.splits)
    have "fetched (log s') = fetched (log (s3\<lparr>obs := rest\<rparr>))
        @ spec_page_walk (page_number (s3\<lparr>obs := rest\<rparr>)) fs"
      by (rule Cons.IH [OF r Cons.prems(2)])
    then show ?thesis using f2 RequestFailed p1 by (simp add: s3_def)
  next
    case (Unexpected e)
    then show ?thesis using run h f2 by (auto simp: Let_def)
  qed
qed

lemma completed_append [simp]: "completed (a @ b) = completed a @ completed b"
  by (simp add: completed_def)

lemma inner_completed: "inner s s' \<Longrightarrow> completed (log s') = completed (log s)"
  by (simp add: inner_def completed_def)

lemma completed_load_page:
  "completed (log (load_page f s)) = completed (log s) @
     (case f of Listing ws \<Rightarrow> if ws = [] then [] else [page_number s] | _ \<Rightarrow> [])"
  by (simp add: completed_def split: page_outcome.splits)

lemma run_completed:
  "fetch_workshop_items url fs s = Some (st, s') \<Longrightarrow>
     page_number s \<le> page_number s' \<and>
     completed (log s') = completed (log s) @ [page_number s .. page_number s' - 1]"
proof (induction fs arbitrary: s)
  case Nil
  then show ?case by (simp add: fetch_workshop_items.simps)
next
  case (Cons f fs)
  note run = Cons.prems(1) [unfolded fetch_workshop_items.simps]
  from run obtain r where h: "loop_head s = Some r" by (auto split: option.splits)
  show ?case
  proof (cases r)
    case (Inl c)
    then have "s' = c" using run h by simp
    moreover have "inner s c" using loop_head_frame [OF h] Inl by simp
    ultimately show ?thesis using inner_completed [of s c] by (simp add: inner_def)
  next
    case (Inr s1)
    have i1: "inner s s1" using loop_head_frame [OF h] Inr by simp
    then have p1: "page_number s1 = page_number s" and c1: "completed (log s1) = completed (log s)"
      by (simp_all add: inner_def inner_completed)
    let ?s2 = "load_page f s1"
    let ?p = "page_number s"
    show ?thesis
    proof (cases f)
      case (Listing ws)
      show ?thesis
      proof (cases "ws = []")
        case True
        have c2: "completed (log ?s2) = completed (log s)"
          using c1 Listing True by (simp add: completed_load_page)
        show ?thesis
        proof (cases "pending_items ?s2 \<noteq> []")
          case pt: True
          then obtain s3 where fp: "process_final_pending_items ?s2 = Some s3" and e: "s' = s3"
            using run h Inr Listing True by (auto simp: Let_def)
          have "inner ?s2 s3" by (rule process_final_frame [OF fp])
          then show ?thesis using e c2 p1 inner_completed [of ?s2 s3] by (simp add: inner_def)
        next
          case False
          then have "s' = ?s2" using run h Inr Listing True by (auto simp: Let_def)
          then show ?thesis using c2 p1 by simp
        qed
      next
        case False
        have c2: "completed (log ?s2) = completed (log s) @ [?p]"
          using c1 p1 Listing False by (simp add: completed_load_page)
        from False obtain s3 where pb: "page_batches ?p 0 (batches ws) ?s2 = Some s3"
          and r: "fetch_workshop_items url fs (s3\<lparr>page_number := ?p + 1\<rparr>) = Some (st, s')"
          using run h Inr Listing p1 by (auto simp: Let_def split: option.splits)
        have "inner ?s2 s3" by (rule page_batches_frame [OF pb])
        then have c3: "completed (log s3) = completed (log s) @ [?p]"
          using c2 inner_completed [of ?s2 s3] by simp
        have ih: "?p + 1 \<le> page_number s' \<and>
            completed (log s') = completed (log s3) @ [?p + 1 .. page_number s' - 1]"
          using Cons.IH [OF r] by simp
        then have "[?p .. page_number s' - 1] = ?p # [?p + 1 .. page_number s' - 1]"
          by (simp add: upto_rec1)
        then show ?thesis using ih c3 by simp
      qed
    next
      case (HttpError code e)
      have c2: "completed (log ?s2) = completed (log s)"
        using c1 HttpError by (simp add: completed_load_page)
      show ?thesis
      proof (cases "code = 429")
        case True
        define s3 where "s3 = ?s2\<lparr>log := log ?s2 @
            [ErrorPut (''429 Too Many Requests on page '' @ str_int ?p
               @ ''. URL: '' @ page_url url ?p)]\<rparr>"
        have c3: "completed (log s3) = completed (log s)" "page_number s3 = ?p"
          using c2 p1 by (simp_all add: s3_def completed_def)
        from run h Inr HttpError True p1 obtain b rest where
          w: "wait_while blocking (obs s3) = Some (b, rest)"
          by (auto simp: Let_def s3_def split: option.splits)
        show ?thesis
        proof (cases b)
          case False
          then have "s' = s3\<lparr>obs := rest\<rparr>"
            using run h Inr HttpError True p1 w by (auto simp: Let_def s3_def)
          then show ?thesis using c3 by simp
        next
          case bt: True
          then have r: "fetch_workshop_items url fs (s3\<lparr>obs := rest\<rparr>) = Some (st, s')"
            using run h Inr HttpError True p1 w by (auto simp: Let_def s3_def)
          show ?thesis using Cons.IH [OF r] c3 by simp
        qed
      next
        case False
        then show ?thesis using run h Inr HttpError c2 p1 by (auto simp: Let_def completed_def)
      qed
    next
      case (RequestFailed e)
      have c2: "completed (log ?s2) = completed (log s)"
        using c1 RequestFailed by (simp add: completed_load_page)
      define s3 where "s3 = ?s2\<lparr>log := log ?s2 @
          [ErrorPut (''Request failed on page '' @ str_int ?p @ '': '' @ e)]\<rparr>"
      have c3: "completed (log s3) = completed (log s)" "page_number s3 = ?p"
        using c2 p1 by (simp_all add: s3_def completed_def)
      from run h Inr RequestFailed p1 obtain b rest where
        w: "wait_while pause_event (obs s3) = Some (b, rest)"
        by (auto simp: Let_def s3_def split: option.splits)
      show ?thesis
      proof (cases b)
        case False
        then have "s' = s3\<lparr>obs := rest\<rparr>"
          using run h Inr RequestFailed p1 w by (auto simp: Let_def s3_def)
        then show ?thesis using c3 by simp
      next
        case bt: True
        then have r: "fetch_workshop_items url fs (s3\<lparr>obs := rest\<rparr>) = Some (st, s')"
          using run h Inr RequestFailed p1 w by (auto simp: Let_def s3_def)
        show ?thesis using Cons.IH [OF r] c3 by simp
      qed
    next
      case (Unexpected e)
      have c2: "completed (log ?s2) = completed (log s)"
        using c1 Unexpected by (simp add: completed_load_page)
      then show ?thesis using run h Inr Unexpected p1 by (auto simp: Let_def completed_def)
    qed
  qed
qed

lemma settled_Cons2: "settled (a # b # lg) = settled (b # lg)"
  by (simp add: settled_def)

lemma waits_append: "settled lg \<Longrightarrow> waits (lg @ ext) = waits lg @ waits ext"
  by (induction lg rule: waits.induct) (auto simp: settled_def split: if_splits)

lemma calm_refl [simp]: "calm s s"
  by (simp add: calm_def)

lemma calm_trans: "calm s s1 \<Longrightarrow> calm s1 s2 \<Longrightarrow> calm s s2"
  by (auto simp: calm_def)

lemma calm_same_log: "log s' = log s \<Longrightarrow> calm s s'"
  by (simp add: calm_def)

lemma calm_log_append:
  assumes "log s' = log s @ ext" "waits ext = []" "ext = [] \<or> \<not> is_sleep (last ext)"
  shows "calm s s'"
proof (cases "ext = []")
  case True
  then show ?thesis using assms by (simp add: calm_def)
next
  case False
  then have "settled (log s @ ext)" using assms(3) by (simp add: settled_def)
  then show ?thesis using assms by (simp add: calm_def waits_append)
qed

lemma fetch_item_details_calm:
  assumes "fetch_item_details url s = Some (r, s')"
  shows "calm s s'"
proof (cases "obs s")
  case Nil
  then show ?thesis using assms by (simp add: fetch_item_details_def)
next
  case (Cons ob rest)
  show ?thesis
  proof (cases "blocking ob")
    case True
    then show ?thesis using assms Cons by (auto simp: fetch_item_details_def intro: calm_same_log)
  next
    case False
    then obtain d ds where d: "details s = d # ds"
      using assms Cons by (cases "details s") (auto simp: fetch_item_details_def)
    show ?thesis
    proof (cases d)
      case (DetailOk st)
      then have "log s' = log s @ [Sleep (1 / 2), GetItem url d]"
        using assms Cons False d by (auto simp: fetch_item_details_def Let_def)
      then show ?thesis by (rule calm_log_append) simp_all
    next
      case Detail429
      then have "log s' = log s @ [Sleep (1 / 2), GetItem url d,
          ErrorPut (''429 Too Many Requests on item: '' @ url)]"
        using assms Cons False d by (auto simp: fetch_item_details_def Let_def)
      then show ?thesis by (rule calm_log_append) simp_all
    next
      case (DetailHttp code e)
      then have "log s' = log s @ [Sleep (1 / 2), GetItem url d,
          ErrorPut (''HTTP Error '' @ str_nat code @ '' on item: '' @ e)]"
        using assms Cons False d by (auto simp: fetch_item_details_def Let_def)
      then show ?thesis by (rule calm_log_append) simp_all
    next
      case (DetailError e)
      then have "log s' = log s @ [Sleep (1 / 2), GetItem url d,
          ErrorPut (''Error fetching item details: '' @ e)]"
        using assms Cons False d by (auto simp: fetch_item_details_def Let_def)
      then show ?thesis by (rule calm_log_append) simp_all
    qed
  qed
qed

lemma try_item_calm:
  assumes "try_item m e s = Some (rs, s')"
  shows "calm s s'"
proof (cases "anchor (fst e)")
  case NoAnchor
  then show ?thesis using assms by (simp add: try_item_def)
next
  case NoHref
  then have "log s' = log s @ [ErrorPut (error_text m e)]"
    using assms by (auto simp: try_item_def)
  then show ?thesis by (rule calm_log_append) simp_all
next
  case (Href l)
  show ?thesis
  proof (cases "l = []")
    case True
    then show ?thesis using assms Href by (simp add: try_item_def)
  next
    case False
    then obtain r s1 where f: "fetch_item_details l s = Some (r, s1)"
      using assms Href by (auto simp: try_item_def split: option.splits)
    have "calm s s1" by (rule fetch_item_details_calm [OF f])
    moreover have "log s' = log s1"
      using assms Href False f by (cases r) (auto simp: try_item_def)
    ultimately show ?thesis by (auto simp: calm_def)
  qed
qed

lemma process_entries_calm:
  "process_entries m es rs s = Some (rs', s') \<Longrightarrow> calm s s'"
proof (induction es arbitrary: rs s)
  case Nil
  then show ?case by simp
next
  case (Cons e es)
  from Cons.prems obtain b rest where w: "wait_while blocking (obs s) = Some (b, rest)"
    by (auto split: option.splits)
  show ?case
  proof (cases b)
    case False
    then show ?thesis using Cons.prems w by (auto intro: calm_same_log)
  next
    case True
    then obtain r s1 where t: "try_item m e (s\<lparr>obs := rest\<rparr>) = Some (r, s1)"
      and p: "process_entries m es (rs @ r) s1 = Some (rs', s')"
      using Cons.prems w by (auto split: option.splits)
    have "calm (s\<lparr>obs := rest\<rparr>) s1" by (rule try_item_calm [OF t])
    moreover have "calm s1 s'" by (rule Cons.IH [OF p])
    moreover have "calm s (s\<lparr>obs := rest\<rparr>)" by (simp add: calm_def)
    ultimately show ?thesis using calm_trans by blast
  qed
qed

lemma drain_batches_calm:
  "drain_batches bs s = Some s' \<Longrightarrow> calm s s'"
proof (induction bs arbitrary: s)
  case Nil
  then show ?case by simp
next
  case (Cons batch bs)
  from Cons.prems obtain ob rest where o: "obs s = ob # rest"
    by (cases "obs s") auto
  show ?case
  proof (cases "blocking ob")
    case True
    then have "drain_batches bs (s\<lparr>obs := rest, pending_items := pending_items s @ batch\<rparr>) = Some s'"
      using Cons.prems o by simp
    then have "calm (s\<lparr>obs := rest, pending_items := pending_items s @ batch\<rparr>) s'"
      by (rule Cons.IH)
    then show ?thesis by (simp add: calm_def)
  next
    case False
    then obtain rs s1 where p: "process_entries Retry batch [] (s\<lparr>obs := rest\<rparr>) = Some (rs, s1)"
      and d: "drain_batches bs (s1\<lparr>items := items s1 @ rs\<rparr>) = Some s'"
      using Cons.prems o by (auto simp: process_item_batch_pending_def split: option.splits)
    have a: "calm (s\<lparr>obs := rest\<rparr>) s1" by (rule process_entries_calm [OF p])
    have c: "calm (s1\<lparr>items := items s1 @ rs\<rparr>) s'" by (rule Cons.IH [OF d])
    show ?thesis using a c by (simp add: calm_def)
  qed
qed

lemma drain_pending_calm:
  assumes "drain_pending s = Some s'"
  shows "calm s s'"
proof (cases "pending_items s \<noteq> [] \<and> \<not> processing_pending s")
  case True
  then obtain s1 where d: "drain_batches (concat (map batches (group_pages (pending_items s))))
        (s\<lparr>processing_pending := True, pending_items := []\<rparr>) = Some s1"
    and e: "s' = s1\<lparr>processing_pending := False\<rparr>"
    using assms by (auto simp: drain_pending_def split: option.splits)
  have "calm (s\<lparr>processing_pending := True, pending_items := []\<rparr>) s1"
    by (rule drain_batches_calm [OF d])
  then show ?thesis using e by (simp add: calm_def)
next
  case False
  then show ?thesis using assms by (auto simp: drain_pending_def)
qed

lemma page_batches_calm:
  "page_batches page i bs s = Some s' \<Longrightarrow> calm s s'"
proof (induction bs arbitrary: s i)
  case Nil
  then show ?case by simp
next
  case (Cons batch bs)
  from Cons.prems obtain ob rest where o: "obs s = ob # rest"
    by (cases "obs s") auto
  show ?case
  proof (cases "blocking ob")
    case True
    then have "page_batches page (i + 4) bs
        (s\<lparr>obs := rest, pending_items := pending_items s @ enumerate_entries batch page i\<rparr>) = Some s'"
      using Cons.prems o by simp
    then have "calm (s\<lparr>obs := rest,
        pending_items := pending_items s @ enumerate_entries batch page i\<rparr>) s'"
      by (rule Cons.IH)
    then show ?thesis by (simp add: calm_def)
  next
    case False
    then obtain rs s1 where
      p: "process_entries Fresh (enumerate_entries batch page 0) [] (s\<lparr>obs := rest\<rparr>) = Some (rs, s1)"
      and d: "page_batches page (i + 4) bs (s1\<lparr>items := items s1 @ rs\<rparr>) = Some s'"
      using Cons.prems o by (auto simp: process_item_batch_def split: option.splits)
    have a: "calm (s\<lparr>obs := rest\<rparr>) s1" by (rule process_entries_calm [OF p])
    have c: "calm (s1\<lparr>items := items s1 @ rs\<rparr>) s'" by (rule Cons.IH [OF d])
    show ?thesis using a c by (simp add: calm_def)
  qed
qed

lemma process_final_calm:
  assumes "process_final_pending_items s = Some s'"
  shows "calm s s'"
proof (cases "pending_items s = []")
  case True
  then show ?thesis using assms by (simp add: process_final_pending_items_def)
next
  case False
  then obtain rs s1 where
    p: "process_entries Final (pending_items s) [] (s\<lparr>pending_items := []\<rparr>) = Some (rs, s1)"
    and e: "s' = s1\<lparr>items := items s1 @ rs\<rparr>"
    using assms by (auto simp: process_final_pending_items_def split: option.splits)
  have "calm (s\<lparr>pending_items := []\<rparr>) s1" by (rule process_entries_calm [OF p])
  then show ?thesis using e by (simp add: calm_def)
qed

lemma loop_head_calm:
  assumes "loop_head s = Some r"
  shows "calm s (case r of Inl s1 \<Rightarrow> s1 | Inr s1 \<Rightarrow> s1)"
proof -
  from assms obtain b1 r1 where w1: "wait_if pause_event (obs s) = Some (b1, r1)"
    by (auto simp: loop_head_def split: option.splits)
  show ?thesis
  proof (cases b1)
    case False
    then show ?thesis using assms w1 by (auto simp: loop_head_def calm_def)
  next
    case True
    then obtain b2 r2 where w2: "wait_if rate_limit_detected r1 = Some (b2, r2)"
      using assms w1 by (auto simp: loop_head_def split: option.splits)
    show ?thesis
    proof (cases b2)
      case False
      then show ?thesis using assms w1 w2 True by (auto simp: loop_head_def calm_def)
    next
      case b2: True
      then obtain s3 where d: "drain_pending (s\<lparr>obs := r2\<rparr>) = Some s3" and r: "r = Inr s3"
        using assms w1 w2 True by (auto simp: loop_head_def)
      have "calm (s\<lparr>obs := r2\<rparr>) s3" by (rule drain_pending_calm [OF d])
      then show ?thesis using r by (simp add: calm_def)
    qed
  qed
qed

lemma delay_exceeds_one: "calculate_delay p > 1 \<longleftrightarrow> p > 5"
  by (simp add: calculate_delay_def)

lemma load_page_waits:
  assumes "settled (log s)"
  shows "settled (log (load_page f s)) \<and>
         waits (log (load_page f s)) = waits (log s) @ [waited (page_number s, f)]"
proof (cases "page_number s > 5")
  case True
  then have "log (load_page f s) = log s @ [Sleep (calculate_delay (page_number s)), GetPage (page_number s) f]"
    by (simp add: load_page_def Let_def delay_exceeds_one)
  then show ?thesis using assms True by (simp add: waits_append waited_def settled_def)
next
  case False
  then have "log (load_page f s) = log s @ [GetPage (page_number s) f]"
    by (simp add: load_page_def Let_def delay_exceeds_one)
  then show ?thesis using assms False by (simp add: waits_append waited_def settled_def)
qed

lemma calm_error_put: "calm s (s\<lparr>log := log s @ [ErrorPut m]\<rparr>)"
  by (rule calm_log_append [where ext = "[ErrorPut m]"]) simp_all

lemma run_waits:
  "fetch_workshop_items url fs s = Some (st, s') \<Longrightarrow> settled (log s) \<Longrightarrow>
     settled (log s') \<and>
     (\<exists>new. fetched (log s') = fetched (log s) @ new \<and>
            waits (log s') = waits (log s) @ map waited new)"
proof (induction fs arbitrary: s)
  case Nil
  then show ?case by (simp add: fetch_workshop_items.simps)
next
  case (Cons f fs)
  note run = Cons.prems(1) [unfolded fetch_workshop_items.simps]
  note st0 = Cons.prems(2)
  from run obtain r where h: "loop_head s = Some r" by (auto split: option.splits)
  show ?case
  proof (cases r)
    case (Inl c)
    then have e: "s' = c" using run h by simp
    have "inner s c" using loop_head_frame [OF h] Inl by simp
    moreover have "calm s c" using loop_head_calm [OF h] Inl by simp
    ultimately show ?thesis using e st0 by (simp add: inner_def calm_def)
  next
    case (Inr s1)
    have i1: "inner s s1" using loop_head_frame [OF h] Inr by simp
    have k1: "calm s s1" using loop_head_calm [OF h] Inr by simp
    have p1: "page_number s1 = page_number s" and f1: "fetched (log s1) = fetched (log s)"
      using i1 by (simp_all add: inner_def)
    have t1: "settled (log s1)" and w1: "waits (log s1) = waits (log s)"
      using k1 st0 by (simp_all add: calm_def)
    let ?s2 = "load_page f s1"
    let ?p = "page_number s"
    have f2: "fetched (log ?s2) = fetched (log s) @ [(?p, f)]" using p1 f1 by simp
    have t2: "settled (log ?s2)" and w2: "waits (log ?s2) = waits (log s) @ [waited (?p, f)]"
      using load_page_waits [OF t1, of f] p1 w1 by simp_all
    have fin: ?thesis
      if "inner ?s2 s'" "calm ?s2 s'"
    proof -
      have "fetched (log s') = fetched (log s) @ [(?p, f)]"
        using that(1) f2 by (simp add: inner_def)
      moreover have "settled (log s')" "waits (log s') = waits (log s) @ map waited [(?p, f)]"
        using that(2) t2 w2 by (simp_all add: calm_def)
      ultimately show ?thesis by blast
    qed
    have cont: ?thesis
      if i: "inner ?s2 s3" and k: "calm ?s2 s3"
        and r: "fetch_workshop_items url fs s3 = Some (st, s')"
      for s3
    proof -
      have f3: "fetched (log s3) = fetched (log s) @ [(?p, f)]"
        using i f2 by (simp add: inner_def)
      have t3: "settled (log s3)" and w3: "waits (log s3) = waits (log s) @ [waited (?p, f)]"
        using k t2 w2 by (simp_all add: calm_def)
      from Cons.IH [OF r t3] obtain new where
        n: "settled (log s')" "fetched (log s') = fetched (log s3) @ new"
          "waits (log s') = waits (log s3) @ map waited new"
        by blast
      have "fetched (log s') = fetched (log s) @ ((?p, f) # new)" using n f3 by simp
      moreover have "waits (log s') = waits (log s) @ map waited ((?p, f) # new)"
        using n w3 by simp
      ultimately show ?thesis using n(1) by blast
    qed
    show ?thesis
    proof (cases f)
      case (Listing ws)
      show ?thesis
      proof (cases "ws = []")
        case True
        show ?thesis
        proof (cases "pending_items ?s2 \<noteq> []")
          case pt: True
          then obtain s3 where fp: "process_final_pending_items ?s2 = Some s3" and e: "s' = s3"
            using run h Inr Listing True by (auto simp: Let_def)
          show ?thesis
            using fin process_final_frame [OF fp] process_final_calm [OF fp] e by simp
        next
          case False
          then have "s' = ?s2" using run h Inr Listing True by (auto simp: Let_def)
          then show ?thesis using fin by simp
        qed
      next
        case False
        then obtain s3 where pb: "page_batches ?p 0 (batches ws) ?s2 = Some s3"
          and r: "fetch_workshop_items url fs (s3\<lparr>page_number := ?p + 1\<rparr>) = Some (st, s')"
          using run h Inr Listing p1 by (auto simp: Let_def split: option.splits)
        have "inner ?s2 s3" by (rule page_batches_frame [OF pb])
        then have a: "fetched (log (s3\<lparr>page_number := ?p + 1\<rparr>)) = fetched (log s) @ [(?p, f)]"
          using f2 by (simp add: inner_def)
        have "calm ?s2 s3" by (rule page_batches_calm [OF pb])
        then have b: "settled (log (s3\<lparr>page_number := ?p + 1\<rparr>))"
          "waits (log (s3\<lparr>page_number := ?p + 1\<rparr>)) = waits (log s) @ [waited (?p, f)]"
          using t2 w2 by (simp_all add: calm_def)
        from Cons.IH [OF r b(1)] obtain new where
          n: "settled (log s')"
            "fetched (log s') = fetched (log (s3\<lparr>page_number := ?p + 1\<rparr>)) @ new"
            "waits (log s') = waits (log (s3\<lparr>page_number := ?p + 1\<rparr>)) @ map waited new"
          by blast
        have "fetched (log s') = fetched (log s) @ ((?p, f) # new)" using n a by simp
        moreover have "waits (log s') = waits (log s) @ map waited ((?p, f) # new)"
          using n b by simp
        ultimately show ?thesis using n(1) by blast
      qed
    next
      case (HttpError code e)
      show ?thesis
      proof (cases "code = 429")
        case True
        define s3 where "s3 = ?s2\<lparr>log := log ?s2 @
            [ErrorPut (''429 Too Many Requests on page '' @ str_int ?p
               @ ''. URL: '' @ page_url url ?p)]\<rparr>"
        have i3: "inner ?s2 s3" by (simp add: s3_def inner_def)
        have k3: "calm ?s2 s3" unfolding s3_def by (rule calm_error_put)
        from run h Inr HttpError True p1 obtain b rest where
          w: "wait_while blocking (obs s3) = Some (b, rest)"
          by (auto simp: Let_def s3_def split: option.splits)
        have i4: "inner ?s2 (s3\<lparr>obs := rest\<rparr>)"
          using i3 wait_while_sub [OF w] by (auto simp: inner_def)
        have k4: "calm ?s2 (s3\<lparr>obs := rest\<rparr>)" using k3 by (simp add: calm_def)
        show ?thesis
        proof (cases b)
          case False
          then have "s' = s3\<lparr>obs := rest\<rparr>"
            using run h Inr HttpError True p1 w by (auto simp: Let_def s3_def)
          then show ?thesis using fin i4 k4 by simp
        next
          case bt: True
          then have r: "fetch_workshop_items url fs (s3\<lparr>obs := rest\<rparr>) = Some (st, s')"
            using run h Inr HttpError True p1 w by (auto simp: Let_def s3_def)
          show ?thesis by (rule cont [OF i4 k4 r])
        qed
      next
        case False
        define s3 where "s3 = ?s2\<lparr>log := log ?s2 @
            [ErrorPut (''HTTP Error '' @ str_nat code @ '' on page '' @ str_int ?p
               @ '': '' @ e)]\<rparr>"
        have "s' = s3" using run h Inr HttpError False p1 by (auto simp: Let_def s3_def)
        moreover have "inner ?s2 s3" by (simp add: s3_def inner_def)
        moreover have "calm ?s2 s3" unfolding s3_def by (rule calm_error_put)
        ultimately show ?thesis using fin by simp
      qed
    next
      case (RequestFailed e)
      define s3 where "s3 = ?s2\<lparr>log := log ?s2 @
          [ErrorPut (''Request failed on page '' @ str_int ?p @ '': '' @ e)]\<rparr>"
      have i3: "inner ?s2 s3" by (simp add: s3_def inner_def)
      have k3: "calm ?s2 s3" unfolding s3_def by (rule calm_error_put)
      from run h Inr RequestFailed p1 obtain b rest where
        w: "wait_while pause_event (obs s3) = Some (b, rest)"
        by (auto simp: Let_def s3_def split: option.splits)
      have i4: "inner ?s2 (s3\<lparr>obs := rest\<rparr>)"
        using i3 wait_while_sub [OF w] by (auto simp: inner_def)
      have k4: "calm ?s2 (s3\<lparr>obs := rest\<rparr>)" using k3 by (simp add: calm_def)
      show ?thesis
      proof (cases b)
        case False
        then have "s' = s3\<lparr>obs := rest\<rparr>"
          using run h Inr RequestFailed p1 w by (auto simp: Let_def s3_def)
        then show ?thesis using fin i4 k4 by simp
      next
        case bt: True
        then have r: "fetch_workshop_items url fs (s3\<lparr>obs := rest\<rparr>) = Some (st, s')"
          using run h Inr RequestFailed p1 w by (auto simp: Let_def s3_def)
        show ?thesis by (rule cont [OF i4 k4 r])
      qed
    next
      case (Unexpected e)
      define s3 where "s3 = ?s2\<lparr>log := log ?s2 @
          [ErrorPut (''Unexpected error on page '' @ str_int ?p @ '': '' @ e)]\<rparr>"
      have "s' = s3" using run h Inr Unexpected p1 by (auto simp: Let_def s3_def)
      moreover have "inner ?s2 s3" by (simp add: s3_def inner_def)
      moreover have "calm ?s2 s3" unfolding s3_def by (rule calm_error_put)
      ultimately show ?thesis using fin by simp
    qed
  qed
qed

lemma enumerate_shift:
  "map (\<lambda>(j, it). (it, p, i + int j)) (enumerate (n + k) ws)
     = map (\<lambda>(j, it). (it, p, (i + int k) + int j)) (enumerate n ws)"
proof (induction ws arbitrary: n)
  case Nil
  then show ?case by simp
next
  case (Cons x xs)
  have "map (\<lambda>(j, it). (it, p, i + int j)) (enumerate (Suc n + k) xs)
     = map (\<lambda>(j, it). (it, p, (i + int k) + int j)) (enumerate (Suc n) xs)"
    by (rule Cons.IH)
  then show ?case by simp
qed

lemma enumerate_entries_append:
  "enumerate_entries (a @ b) p i
     = enumerate_entries a p i @ enumerate_entries b p (i + int (length a))"
  using enumerate_shift [of p i 0 "length a" b]
  by (simp add: enumerate_entries_def enumerate_append_eq)

lemma enumerate_entries_items [simp]: "map fst (enumerate_entries ws p i) = ws"
  by (simp add: enumerate_entries_def enumerate_eq_zip map_zip_map2 comp_def case_prod_beta)

lemma enumerate_entries_key [simp]:
  "map key (enumerate_entries ws p i) = map (\<lambda>it. (it, p)) ws"
proof -
  have "map key (enumerate_entries ws p i) = map ((\<lambda>it. (it, p)) \<circ> snd) (enumerate 0 ws)"
    by (simp add: enumerate_entries_def key_def comp_def case_prod_beta)
  also have "\<dots> = map (\<lambda>it. (it, p)) (map snd (enumerate 0 ws))"
    by (simp only: map_map)
  also have "\<dots> = map (\<lambda>it. (it, p)) ws" by simp
  finally show ?thesis .
qed

lemma enumerate_entries_take_drop:
  "enumerate_entries (take 4 ws) p i @ enumerate_entries (drop 4 ws) p (i + 4)
     = enumerate_entries ws p i"
proof (cases "length ws \<ge> 4")
  case True
  then have "int (length (take 4 ws)) = 4" by simp
  then show ?thesis
    using enumerate_entries_append [of "take 4 ws" "drop 4 ws" p i] by simp
next
  case False
  then have "drop 4 ws = []" "take 4 ws = ws" by simp_all
  then show ?thesis by (simp add: enumerate_entries_def)
qed

lemma batches_Nil [simp]: "batches [] = []"
  by (simp add: batches.simps)

lemma batches_nonempty: "ws \<noteq> [] \<Longrightarrow> batches ws = take 4 ws # batches (drop 4 ws)"
  by (subst batches.simps) simp

lemma concat_batches [simp]: "concat (batches ws) = ws"
  by (induction ws rule: batches.induct) (subst batches.simps, simp)

lemma page_batches_all_blocked:
  "length (batches ws) \<le> length (obs s) \<Longrightarrow>
   \<forall>ob \<in> set (take (length (batches ws)) (obs s)). blocking ob \<Longrightarrow>
   page_batches page i (batches ws) s
     = Some (s\<lparr>obs := drop (length (batches ws)) (obs s),
               pending_items := pending_items s @ enumerate_entries ws page i\<rparr>)"
proof (induction ws arbitrary: s i rule: batches.induct)
  case (1 ws)
  show ?case
  proof (cases "ws = []")
    case True
    then show ?thesis by (simp add: enumerate_entries_def)
  next
    case False
    note b = batches_nonempty [OF False]
    from "1.prems"(1) obtain ob rest where o: "obs s = ob # rest"
      unfolding b by (cases "obs s") auto
    have bl: "blocking ob" using "1.prems"(2) unfolding b o by simp
    let ?s1 = "s\<lparr>obs := rest, pending_items := pending_items s @ enumerate_entries (take 4 ws) page i\<rparr>"
    have l: "length (batches (drop 4 ws)) \<le> length (obs ?s1)"
      using "1.prems"(1) unfolding b o by simp
    have a: "\<forall>ob \<in> set (take (length (batches (drop 4 ws))) (obs ?s1)). blocking ob"
      using "1.prems"(2) unfolding b o by simp
    have "page_batches page i (batches ws) s = page_batches page (i + 4) (batches (drop 4 ws)) ?s1"
      unfolding b using o bl by simp
    also have "\<dots> = Some (?s1\<lparr>obs := drop (length (batches (drop 4 ws))) (obs ?s1),
        pending_items := pending_items ?s1 @ enumerate_entries (drop 4 ws) page (i + 4)\<rparr>)"
      by (rule "1.IH" [OF False l a])
    also have "\<dots> = Some (s\<lparr>obs := drop (length (batches ws)) (obs s),
               pending_items := pending_items s @ enumerate_entries ws page i\<rparr>)"
      unfolding b o using enumerate_entries_take_drop [of ws page i] by simp
    finally show ?thesis .
  qed
qed

lemma wait_while_polls:
  "cond x \<Longrightarrow> thread_alive x \<Longrightarrow> \<not> cond y \<Longrightarrow>
     wait_while cond (replicate n x @ y # rest) = Some (True, rest)"
  by (induction n) auto

lemma blocking_seen [simp]: "blocking (seen c) = blocking c"
  by (simp add: blocking_def seen_def)

lemma thread_alive_seen [simp]: "thread_alive (seen c)"
  by (simp add: seen_def)

lemma loop_head_clear:
  "obs s = a # b # rest \<Longrightarrow> \<not> pause_event a \<Longrightarrow> \<not> rate_limit_detected b \<Longrightarrow>
   pending_items s = [] \<Longrightarrow> loop_head s = Some (Inr (s\<lparr>obs := rest\<rparr>))"
  by (simp add: loop_head_def wait_if_def drain_pending_def)

lemma wait_while_blocked:
  "list_all (\<lambda>ob. cond ob \<and> thread_alive ob) bl \<Longrightarrow> \<not> cond c1 \<Longrightarrow>
     wait_while cond (bl @ c1 # r) = Some (True, r)"
  by (induction bl) auto

lemma enumerate_entries_nth:
  "enumerate_entries batch page i = map (\<lambda>j. (batch ! j, page, i + int j)) [0..<length batch]"
  by (rule nth_equalityI) (simp_all add: enumerate_entries_def enumerate_eq_zip)

lemma try_item_fetched:
  assumes "fetchable (fst e)" "obs s = c2 # rest" "\<not> blocking c2" "details s = DetailOk st # ds"
  shows "\<exists>s1. try_item m e s = Some ([record_of e st], s1) \<and>
           pending_items s1 = pending_items s \<and> items s1 = items s \<and>
           obs s1 = rest \<and> details s1 = ds"
proof -
  from assms(1) obtain l where l: "anchor (fst e) = Href l" "l \<noteq> []"
    by (auto simp: fetchable_def split: anchor.splits)
  show ?thesis
    using l assms(2-4)
    by (simp add: try_item_def fetch_item_details_def record_of_def Let_def)
qed

lemma try_item_refused:
  assumes "fetchable (fst e)" "obs s = ob # rest" "blocking ob"
  shows "try_item m e s = Some ([], s\<lparr>obs := rest, pending_items := pending_items s @ [e]\<rparr>)"
proof -
  from assms(1) obtain l where l: "anchor (fst e) = Href l" "l \<noteq> []"
    by (auto simp: fetchable_def split: anchor.splits)
  show ?thesis using l assms(2,3) by (simp add: try_item_def fetch_item_details_def)
qed

lemma polls_only_delay:
  "length sts = length es \<Longrightarrow> length ws = length es \<Longrightarrow>
   list_all (\<lambda>e. fetchable (fst e)) es \<Longrightarrow> list_all delayed ws \<Longrightarrow>
   obs s = concat (map polls ws) @ rest \<Longrightarrow> details s = map DetailOk sts @ ds \<Longrightarrow>
   \<exists>s'. process_entries m es rs s = Some (rs @ map2 record_of es sts, s') \<and>
        pending_items s' = pending_items s \<and> items s' = items s \<and>
        obs s' = rest \<and> details s' = ds"
proof (induction es arbitrary: sts ws rs s)
  case Nil
  then show ?case by simp
next
  case (Cons e es)
  from Cons.prems(1) obtain st sts' where sts: "sts = st # sts'" "length sts' = length es"
    by (cases sts) auto
  from Cons.prems(2) obtain w ws' where ws: "ws = w # ws'" "length ws' = length es"
    by (cases ws) auto
  obtain bl c1 c2 where w: "w = (bl, c1, c2)" by (cases w) auto
  have dh: "delayed w" and dw: "list_all delayed ws'"
    using Cons.prems(4) ws by simp_all
  have d: "list_all (\<lambda>ob. blocking ob \<and> thread_alive ob) bl" "\<not> blocking c1" "\<not> blocking c2"
    using dh w by (simp_all add: delayed_def)
  have o: "obs s = bl @ c1 # (c2 # concat (map polls ws') @ rest)"
  proof -
    have "polls w = bl @ [c1, c2]" using w by (simp add: polls_def)
    then show ?thesis using Cons.prems(5) ws(1) by simp
  qed
  have ww: "wait_while blocking (obs s) = Some (True, c2 # concat (map polls ws') @ rest)"
    unfolding o by (rule wait_while_blocked [OF d(1,2)])
  have fe: "fetchable (fst e)" and fes: "list_all (\<lambda>e. fetchable (fst e)) es"
    using Cons.prems(3) by simp_all
  obtain s1 where t: "try_item m e (s\<lparr>obs := c2 # concat (map polls ws') @ rest\<rparr>)
        = Some ([record_of e st], s1)"
    and s1: "pending_items s1 = pending_items s" "items s1 = items s"
      "obs s1 = concat (map polls ws') @ rest" "details s1 = map DetailOk sts' @ ds"
    using try_item_fetched [OF fe, where s = "s\<lparr>obs := c2 # concat (map polls ws') @ rest\<rparr>"
        and ?c2.0 = c2 and rest = "concat (map polls ws') @ rest" and st = st
        and ds = "map DetailOk sts' @ ds" and m = m]
      d(3) Cons.prems(6) sts by auto
  obtain s' where p: "process_entries m es (rs @ [record_of e st]) s1
        = Some ((rs @ [record_of e st]) @ map2 record_of es sts', s')"
    and s': "pending_items s' = pending_items s1" "items s' = items s1"
      "obs s' = rest" "details s' = ds"
    using Cons.IH [OF sts(2) ws(2) fes dw s1(3) s1(4), where rs = "rs @ [record_of e st]"] by auto
  have "process_entries m (e # es) rs s = Some (rs @ map2 record_of (e # es) sts, s')"
    using ww t p sts by simp
  then show ?case using s' s1 by (intro exI [of _ s']) simp
qed

lemma process_entries_refused:
  assumes "fetchable (fst e)" "obs s = c1 # ob # rest" "\<not> blocking c1" "blocking ob"
  shows "process_entries m (e # es) rs s
           = process_entries m es rs (s\<lparr>obs := rest, pending_items := pending_items s @ [e]\<rparr>)"
proof -
  have "try_item m e (s\<lparr>obs := ob # rest\<rparr>)
      = Some ([], s\<lparr>obs := ob # rest\<rparr>\<lparr>obs := rest,
          pending_items := pending_items (s\<lparr>obs := ob # rest\<rparr>) @ [e]\<rparr>)"
    by (rule try_item_refused [OF assms(1) _ assms(4)]) simp
  then show ?thesis using assms(2,3) by simp
qed

section \<open>The claims\<close>

subsection \<open>C3: resume clears both conditions\<close>

text \<open>
  C3. In every paused state of the flags (\<open>is_paused\<close> set, whether or not a rate limit
  was detected), \<open>resume_scraping\<close> clears the manual pause (\<open>is_paused\<close>, the pause
  event), the rate-limit condition (\<open>rate_limit_detected\<close>, \<open>auto_paused\<close>) at once,
  and the flags no longer block the worker.
\<close>

theorem resume_clears_both:
  "is_paused c \<Longrightarrow>
     \<not> is_paused (resume_scraping c) \<and> \<not> pause_event (resume_scraping c) \<and>
     \<not> rate_limit_detected (resume_scraping c) \<and> \<not> auto_paused (resume_scraping c) \<and>
     \<not> blocking (resume_scraping c)"
  by (simp add: resume_scraping_def blocking_def Let_def)

theorem resume_clears_both_witness:
  "\<not> blocking (resume_scraping
      \<lparr>is_paused = True, pause_event = True, rate_limit_detected = True, auto_paused = True\<rparr>) \<and>
   \<not> blocking (resume_scraping
      \<lparr>is_paused = True, pause_event = True, rate_limit_detected = False, auto_paused = False\<rparr>)"
  using resume_clears_both [of "\<lparr>is_paused = True, pause_event = True,
            rate_limit_detected = True, auto_paused = True\<rparr>"]
        resume_clears_both [of "\<lparr>is_paused = True, pause_event = True,
            rate_limit_detected = False, auto_paused = False\<rparr>"]
  by simp

subsection \<open>C9: what the date normalisation does\<close>

text \<open>
  C9 as stated fails in two ways. A date without a year and without a separator is
  returned as it came, with no year stamped; and a date whose 4-digit year does not
  begin with 19 or 20 is not recognised as dated and gets the current year as well.
\<close>

theorem fix_date_format_not_always_stamped:
  "fix_date_format 2026 ''1 Jan'' = Some ''1 Jan'' \<and>
   fix_date_format 2026 ''1 Jan, 2100 @ 3pm'' = Some ''1 Jan, 2100, 2026, 3pm''"
  by code_simp

text \<open>
  C9, amended. The sentinels \<open>Unknown\<close> and \<open>? KB\<close> are returned unchanged. A
  string holding a year 1900 to 2099 as a whole word is only reformatted: every
  \<open>" @ "\<close> becomes \<open>", "\<close>, its digits stay as they are and the year is still
  there. Otherwise, a string with a \<open>" @ "\<close> separator becomes the text before its
  first \<open>" @ "\<close>, the current year, and the text after that separator up to the next
  \<open>" @ "\<close> (what follows a second separator is dropped); a string with a \<open>", "\<close>
  separator and none of the numbers 1900 to 2099 in it gets the current year inserted
  after its first \<open>", "\<close>, all else kept; any other string is returned unchanged.
  (\<open>a\<close> ends where the first separator begins exactly when the separator does not
  occur in \<open>a\<close> followed by the separator without its last character.)
\<close>

theorem fix_date_format_cases:
  "(s \<in> set [''Unknown'', ''? KB''] \<longrightarrow> fix_date_format y s = Some s) \<and>
   (s \<notin> set [''Unknown'', ''? KB''] \<and> has_year s \<longrightarrow>
      fix_date_format y s = Some (str_replace '' @ '' '', '' s) \<and>
      filter is_digit (str_replace '' @ '' '', '' s) = filter is_digit s \<and>
      has_year (str_replace '' @ '' '', '' s)) \<and>
   (s \<notin> set [''Unknown'', ''? KB''] \<and> \<not> has_year s \<and> contains '' @ '' s \<longrightarrow>
      (\<exists>a r. s = a @ '' @ '' @ r \<and> \<not> contains '' @ '' (a @ '' @'') \<and>
         fix_date_format y s
           = Some (a @ '', '' @ str_nat y @ '', '' @ before_first '' @ '' r))) \<and>
   (s \<notin> set [''Unknown'', ''? KB''] \<and> \<not> has_year s \<and> \<not> contains '' @ '' s \<and>
    contains '', '' s \<and> \<not> any_year_in s \<longrightarrow>
      (\<exists>a r. s = a @ '', '' @ r \<and> \<not> contains '', '' (a @ '','') \<and>
         fix_date_format y s = Some (a @ '', '' @ str_nat y @ '', '' @ r))) \<and>
   (s \<notin> set [''Unknown'', ''? KB''] \<and> \<not> has_year s \<and> \<not> contains '' @ '' s \<and>
    (\<not> contains '', '' s \<or> any_year_in s) \<longrightarrow> fix_date_format y s = Some s)"
proof (intro conjI impI)
  assume "s \<in> set [''Unknown'', ''? KB'']"
  then show "fix_date_format y s = Some s" by (simp add: fix_date_format_def)
next
  assume "s \<notin> set [''Unknown'', ''? KB''] \<and> has_year s"
  then show "fix_date_format y s = Some (str_replace '' @ '' '', '' s)"
    by (simp add: fix_date_format_def)
next
  show "filter is_digit (str_replace '' @ '' '', '' s) = filter is_digit s"
    by (rule replace_sep_digits)
next
  assume "s \<notin> set [''Unknown'', ''? KB''] \<and> has_year s"
  then show "has_year (str_replace '' @ '' '', '' s)" by (simp add: has_year_replace)
next
  assume "s \<notin> set [''Unknown'', ''? KB''] \<and> \<not> has_year s \<and> contains '' @ '' s"
  then show "\<exists>a r. s = a @ '' @ '' @ r \<and> \<not> contains '' @ '' (a @ '' @'') \<and>
         fix_date_format y s
           = Some (a @ '', '' @ str_nat y @ '', '' @ before_first '' @ '' r)"
    using fix_date_format_at by blast
next
  assume "s \<notin> set [''Unknown'', ''? KB''] \<and> \<not> has_year s \<and> \<not> contains '' @ '' s \<and>
    contains '', '' s \<and> \<not> any_year_in s"
  then show "\<exists>a r. s = a @ '', '' @ r \<and> \<not> contains '', '' (a @ '','') \<and>
         fix_date_format y s = Some (a @ '', '' @ str_nat y @ '', '' @ r)"
    using fix_date_format_comma by blast
next
  assume "s \<notin> set [''Unknown'', ''? KB''] \<and> \<not> has_year s \<and> \<not> contains '' @ '' s \<and>
    (\<not> contains '', '' s \<or> any_year_in s)"
  then show "fix_date_format y s = Some s"
    using fix_date_format_other by blast
qed

theorem fix_date_format_cases_witness:
  "fix_date_format 2026 ''Unknown'' = Some ''Unknown'' \<and>
   fix_date_format 2026 ''1 Jan, 2020 @ 12:20pm'' = Some ''1 Jan, 2020, 12:20pm'' \<and>
   (\<exists>a r. ''1 Jan @ 12:20pm @ x'' = a @ '' @ '' @ r \<and> \<not> contains '' @ '' (a @ '' @'') \<and>
      fix_date_format 2026 ''1 Jan @ 12:20pm @ x''
        = Some (a @ '', '' @ str_nat 2026 @ '', '' @ before_first '' @ '' r)) \<and>
   (\<exists>a r. ''1 Jan, 12:35pm'' = a @ '', '' @ r \<and> \<not> contains '', '' (a @ '','') \<and>
      fix_date_format 2026 ''1 Jan, 12:35pm'' = Some (a @ '', '' @ str_nat 2026 @ '', '' @ r)) \<and>
   fix_date_format 2026 ''1 Jan'' = Some ''1 Jan''"
proof -
  have h1: "''Unknown'' \<in> set [''Unknown'', ''? KB'']" by simp
  have h2: "''1 Jan, 2020 @ 12:20pm'' \<notin> set [''Unknown'', ''? KB'']
      \<and> has_year ''1 Jan, 2020 @ 12:20pm''" by code_simp
  have r2: "str_replace '' @ '' '', '' ''1 Jan, 2020 @ 12:20pm'' = ''1 Jan, 2020, 12:20pm''"
    by code_simp
  have h3: "''1 Jan @ 12:20pm @ x'' \<notin> set [''Unknown'', ''? KB'']
      \<and> \<not> has_year ''1 Jan @ 12:20pm @ x'' \<and> contains '' @ '' ''1 Jan @ 12:20pm @ x''"
    by code_simp
  have n4: "\<not> any_year_in ''1 Jan, 12:35pm''"
    by (rule no_year_digits) code_simp+
  have "''1 Jan, 12:35pm'' \<notin> set [''Unknown'', ''? KB''] \<and> \<not> has_year ''1 Jan, 12:35pm''
      \<and> \<not> contains '' @ '' ''1 Jan, 12:35pm'' \<and> contains '', '' ''1 Jan, 12:35pm''"
    by code_simp
  then have h4: "''1 Jan, 12:35pm'' \<notin> set [''Unknown'', ''? KB''] \<and> \<not> has_year ''1 Jan, 12:35pm''
      \<and> \<not> contains '' @ '' ''1 Jan, 12:35pm'' \<and> contains '', '' ''1 Jan, 12:35pm''
      \<and> \<not> any_year_in ''1 Jan, 12:35pm''"
    using n4 by (simp only: simp_thms)
  have "''1 Jan'' \<notin> set [''Unknown'', ''? KB''] \<and> \<not> has_year ''1 Jan''
      \<and> \<not> contains '' @ '' ''1 Jan'' \<and> \<not> contains '', '' ''1 Jan''" by code_simp
  then have h5: "''1 Jan'' \<notin> set [''Unknown'', ''? KB''] \<and> \<not> has_year ''1 Jan''
      \<and> \<not> contains '' @ '' ''1 Jan'' \<and> (\<not> contains '', '' ''1 Jan'' \<or> any_year_in ''1 Jan'')"
    by (simp only: simp_thms)
  note t1 = fix_date_format_cases [of "''Unknown''" 2026, THEN conjunct1, THEN mp, OF h1]
  note t2 = fix_date_format_cases [of "''1 Jan, 2020 @ 12:20pm''" 2026,
      THEN conjunct2, THEN conjunct1, THEN mp, OF h2, THEN conjunct1]
  note t3 = fix_date_format_cases [of "''1 Jan @ 12:20pm @ x''" 2026,
      THEN conjunct2, THEN conjunct2, THEN conjunct1, THEN mp, OF h3]
  note t4 = fix_date_format_cases [of "''1 Jan, 12:35pm''" 2026,
      THEN conjunct2, THEN conjunct2, THEN conjunct2, THEN conjunct1, THEN mp, OF h4]
  note t5 = fix_date_format_cases [of "''1 Jan''" 2026,
      THEN conjunct2, THEN conjunct2, THEN conjunct2, THEN conjunct2, THEN mp, OF h5]
  from t2 have t2': "fix_date_format 2026 ''1 Jan, 2020 @ 12:20pm'' = Some ''1 Jan, 2020, 12:20pm''"
    unfolding r2 .
  show ?thesis
    by (intro conjI) (rule t1 t2' t3 t4 t5)+
qed

subsection \<open>C10: idempotence of the date normalisation\<close>

text \<open>
  C10 as stated fails in two ways. With overlapping separators the first pass leaves
  a separator behind, which the second pass rewrites: \<open>"2020 @ @ x"\<close> becomes
  \<open>"2020, @ x"\<close> and then \<open>"2020,, x"\<close>. And a current year that the year pattern
  does not recognise (one outside 1900 to 2099) is stamped again by the second pass:
  in 2100, \<open>"1 Jan @ 3pm"\<close> becomes \<open>"1 Jan, 2100, 3pm"\<close> and then
  \<open>"1 Jan, 2100, 2100, 3pm"\<close>.
\<close>

theorem fix_date_format_not_idempotent:
  "fix_date_format 2026 ''2020 @ @ x'' = Some ''2020, @ x'' \<and>
   fix_date_format 2026 ''2020, @ x'' = Some ''2020,, x'' \<and>
   fix_date_format 2100 ''1 Jan @ 3pm'' = Some ''1 Jan, 2100, 3pm'' \<and>
   fix_date_format 2100 ''1 Jan, 2100, 3pm'' = Some ''1 Jan, 2100, 2100, 3pm''"
proof -
  have a: "fix_date_format 2026 ''2020 @ @ x'' = Some ''2020, @ x''" by code_simp
  have b: "fix_date_format 2026 ''2020, @ x'' = Some ''2020,, x''" by code_simp
  have c: "fix_date_format 2100 ''1 Jan @ 3pm'' = Some ''1 Jan, 2100, 3pm''" by code_simp
  have n: "\<not> any_year_in ''1 Jan, 2100, 3pm''" by (rule no_year_digits) code_simp+
  have pre: "\<not> has_year ''1 Jan, 2100, 3pm''" by code_simp
  have sp: "str_split '', '' ''1 Jan, 2100, 3pm'' = [''1 Jan'', ''2100'', ''3pm'']" by code_simp
  have st: "str_nat 2100 = ''2100''" by code_simp
  have d: "fix_date_format 2100 ''1 Jan, 2100, 3pm'' = Some ''1 Jan, 2100, 2100, 3pm''"
    by (simp add: fix_date_format_def pre n sp st del: str_split.simps)
  show ?thesis using a b c d by (intro conjI)
qed

text \<open>
  C10, amended. When the current year is between 1900 and 2099 (so that the stamped
  year is one the year pattern recognises) and the normalised string holds no
  \<open>" @ "\<close> separator any more, normalising it again changes nothing.
\<close>

theorem fix_date_format_idempotent_amended:
  assumes "1900 \<le> y" "y < 2100" "fix_date_format y s = Some r" "\<not> contains '' @ '' r"
  shows "fix_date_format y r = Some r"
proof -
  consider (sentinel) "s \<in> set [''Unknown'', ''? KB'']"
    | (year) "s \<notin> set [''Unknown'', ''? KB'']" "has_year s"
    | (at) "s \<notin> set [''Unknown'', ''? KB'']" "\<not> has_year s" "contains '' @ '' s"
    | (comma) "s \<notin> set [''Unknown'', ''? KB'']" "\<not> has_year s" "\<not> contains '' @ '' s"
        "contains '', '' s \<and> \<not> any_year_in s \<and> length (str_split '', '' s) \<ge> 2"
    | (other) "s \<notin> set [''Unknown'', ''? KB'']" "\<not> has_year s" "\<not> contains '' @ '' s"
        "\<not> (contains '', '' s \<and> \<not> any_year_in s \<and> length (str_split '', '' s) \<ge> 2)"
    by blast
  then show ?thesis
  proof cases
    case sentinel
    then have "r = s" using assms(3) by (simp add: fix_date_format_def)
    then show ?thesis using sentinel assms(4) by (intro fix_date_format_fixed) simp_all
  next
    case year
    then have "r = str_replace '' @ '' '', '' s" using assms(3) by (simp add: fix_date_format_def)
    then have "has_year r" using year(2) has_year_replace by simp
    then show ?thesis using assms(4) by (intro fix_date_format_fixed) simp_all
  next
    case at
    obtain p0 p1 rest where p: "str_split '' @ '' s = p0 # p1 # rest"
      using split_two_parts [of "'' @ ''" s] at(3) by auto
    have "r = p0 @ '', '' @ str_nat y @ '', '' @ p1"
      using assms(3) at p by (simp add: fix_date_format_def)
    then have "has_year r" unfolding has_year_def using year_search_stamp [OF assms(1,2)] by simp
    then show ?thesis using assms(4) by (intro fix_date_format_fixed) simp_all
  next
    case comma
    obtain p0 rest where p: "str_split '', '' s = p0 # rest"
      using str_split_nonempty [of "'', ''" s] by (cases "str_split '', '' s") auto
    have "r = p0 @ '', '' @ str_nat y @ '', '' @ str_join '', '' rest"
      using assms(3) comma p by (simp add: fix_date_format_def)
    then have "has_year r" unfolding has_year_def using year_search_stamp [OF assms(1,2)] by simp
    then show ?thesis using assms(4) by (intro fix_date_format_fixed) simp_all
  next
    case other
    have "str_replace '' @ '' '', '' s = s"
      using other(3) by (intro replace_no_occurrence) simp_all
    then have "r = s" using assms(3) other by (auto simp: fix_date_format_def)
    then show ?thesis using assms(3) by simp
  qed
qed

theorem fix_date_format_idempotent_amended_witness:
  "fix_date_format 2026 ''1 Jan, 2026, 12:20pm'' = Some ''1 Jan, 2026, 12:20pm''"
proof -
  have h1: "fix_date_format 2026 ''1 Jan @ 12:20pm'' = Some ''1 Jan, 2026, 12:20pm''"
    by code_simp
  have h2: "\<not> contains '' @ '' ''1 Jan, 2026, 12:20pm''" by code_simp
  show ?thesis
    using fix_date_format_idempotent_amended [of 2026 "''1 Jan @ 12:20pm''", OF _ _ h1 h2]
    by simp
qed

subsection \<open>C6: a fatal HTTP error ends the run with the partial result\<close>

text \<open>
  C6. When the request of a listing page fails with an HTTP status other than 429,
  the run returns at once: no matter what the rest of the script holds, the result
  is the state the loop head left, with nothing but the failed request and its error
  message added to the log. The records are those accumulated so far (the records
  the run started the iteration with are a prefix of them), the retry queue and
  the cursor are untouched, and the failing page is requested once.
\<close>

theorem fatal_http_returns_partial:
  assumes "code \<noteq> 429" and "loop_head s = Some (Inr s1)"
  shows "\<exists>s'. fetch_workshop_items url (HttpError code e # fs) s = Some (FatalHttp, s') \<and>
           items s' = items s1 \<and> prefix (items s) (items s') \<and>
           pending_items s' = pending_items s1 \<and> page_number s' = page_number s \<and>
           fetched (log s') = fetched (log s) @ [(page_number s, HttpError code e)] \<and>
           fetch_workshop_items url (HttpError code e # fs) s
             = fetch_workshop_items url [HttpError code e] s"
proof -
  have i: "inner s s1" using loop_head_frame [OF assms(2)] by simp
  then have "prefix (items s) (items s1)" "page_number s1 = page_number s"
    "fetched (log s1) = fetched (log s)" by (simp_all add: inner_def)
  then show ?thesis
    using assms by (simp add: fetch_workshop_items.simps Let_def)
qed

theorem fatal_http_returns_partial_witness:
  "\<exists>s'. fetch_workshop_items ''u'' [HttpError 500 ''Server Error'', Listing []]
           \<lparr>page_number = 3,
              items = [\<lparr>Name = ''a'', stats = (1::nat), origin = (linked ''a'' ''x'', 1, 0)\<rparr>,
                       \<lparr>Name = ''b'', stats = 2, origin = (linked ''b'' ''y'', 2, 0)\<rparr>],
              pending_items = [], processing_pending = False, obs = [running, running],
              details = [], log = []\<rparr> = Some (FatalHttp, s') \<and>
         items s' = [\<lparr>Name = ''a'', stats = 1, origin = (linked ''a'' ''x'', 1, 0)\<rparr>,
                     \<lparr>Name = ''b'', stats = 2, origin = (linked ''b'' ''y'', 2, 0)\<rparr>] \<and>
         fetched (log s') = [(3, HttpError 500 ''Server Error'')]"
proof -
  have a: "(500::nat) \<noteq> 429" by simp
  have b: "loop_head \<lparr>page_number = 3,
              items = [\<lparr>Name = ''a'', stats = (1::nat), origin = (linked ''a'' ''x'', 1, 0)\<rparr>,
                       \<lparr>Name = ''b'', stats = 2, origin = (linked ''b'' ''y'', 2, 0)\<rparr>],
              pending_items = [], processing_pending = False, obs = [running, running],
              details = [], log = []\<rparr>
        = Some (Inr \<lparr>page_number = 3,
              items = [\<lparr>Name = ''a'', stats = (1::nat), origin = (linked ''a'' ''x'', 1, 0)\<rparr>,
                       \<lparr>Name = ''b'', stats = 2, origin = (linked ''b'' ''y'', 2, 0)\<rparr>],
              pending_items = [], processing_pending = False, obs = [],
              details = [], log = []\<rparr>)"
    by (simp add: loop_head_def wait_if_def running_def drain_pending_def)
  from fatal_http_returns_partial [OF a b, of "''u''" "''Server Error''" "[Listing []]"]
  obtain s' where "fetch_workshop_items ''u'' [HttpError 500 ''Server Error'', Listing []]
           \<lparr>page_number = 3,
              items = [\<lparr>Name = ''a'', stats = (1::nat), origin = (linked ''a'' ''x'', 1, 0)\<rparr>,
                       \<lparr>Name = ''b'', stats = 2, origin = (linked ''b'' ''y'', 2, 0)\<rparr>],
              pending_items = [], processing_pending = False, obs = [running, running],
              details = [], log = []\<rparr> = Some (FatalHttp, s')"
    and "items s' = [\<lparr>Name = ''a'', stats = 1, origin = (linked ''a'' ''x'', 1, 0)\<rparr>,
                     \<lparr>Name = ''b'', stats = 2, origin = (linked ''b'' ''y'', 2, 0)\<rparr>]"
    and "fetched (log s') = [(3, HttpError 500 ''Server Error'')]"
    by auto
  then show ?thesis by blast
qed

subsection \<open>C7: a transient failure of the page request\<close>

text \<open>
  C7 does not hold of the code. The handler of a transient failure is commented
  \<open># Wait for resume\<close> and polls \<open>while pause_event.is_set()\<close>, but nothing sets the
  event because of the failure: the message it puts on the error queue holds neither
  \<open>429\<close> nor \<open>Too Many Requests\<close>, so \<open>check_for_errors\<close> changes no flag and
  schedules no \<open>handle_auto_pause\<close> (the handler of a 429 next to it does get the run
  paused). Here no snapshot of the script is paused, the first request of page 1 times
  out, and the worker requests page 1 again at once, without any resume; the second
  request returns the empty page and the run ends.
\<close>

theorem transient_error_no_wait:
  "fetch_workshop_items ''u'' [RequestFailed ''timed out'', Listing []]
     (start [running, running, running, running, running] ([] :: nat detail_outcome list))
   = Some (Success,
       \<lparr>page_number = 1, items = [], pending_items = [], processing_pending = False,
          obs = [], details = [],
          log = [GetPage 1 (RequestFailed ''timed out''),
                 ErrorPut ''Request failed on page 1: timed out'',
                 GetPage 1 (Listing [])]\<rparr>) \<and>
   check_for_errors
     \<lparr>is_paused = False, pause_event = False, rate_limit_detected = False, auto_paused = False\<rparr>
     [''Request failed on page 1: timed out'']
   = (\<lparr>is_paused = False, pause_event = False, rate_limit_detected = False,
        auto_paused = False\<rparr>, 0)"
proof -
  have s: "str_int 1 = ''1''" by code_simp
  have a: "fetch_workshop_items ''u'' [RequestFailed ''timed out'', Listing []]
     (start [running, running, running, running, running] ([] :: nat detail_outcome list))
   = Some (Success,
       \<lparr>page_number = 1, items = [], pending_items = [], processing_pending = False,
          obs = [], details = [],
          log = [GetPage 1 (RequestFailed ''timed out''),
                 ErrorPut ''Request failed on page 1: timed out'',
                 GetPage 1 (Listing [])]\<rparr>)"
    by (simp add: fetch_workshop_items.simps start_def loop_head_def wait_if_def running_def
          drain_pending_def load_page_def calculate_delay_def Let_def s)
  have b: "check_for_errors
     \<lparr>is_paused = False, pause_event = False, rate_limit_detected = False, auto_paused = False\<rparr>
     [''Request failed on page 1: timed out'']
   = (\<lparr>is_paused = False, pause_event = False, rate_limit_detected = False,
        auto_paused = False\<rparr>, 0)"
    by code_simp
  show ?thesis using a b by (rule conjI)
qed

lemma contains_prefix: "prefix sub s \<Longrightarrow> contains sub s"
  by (cases s) auto

lemma check_for_errors_429:
  assumes "contains ''429'' m"
  shows "check_for_errors c [m]
     = (c\<lparr>rate_limit_detected := True, auto_paused := True\<rparr>, if is_paused c then 0 else 1)"
  using assms by simp

subsection \<open>C4: a rate-limited page is fetched again\<close>

text \<open>
  C4. When the request of a listing page fails with HTTP 429 the worker puts a
  message on the error queue that \<open>check_for_errors\<close> recognises: whatever the flags
  \<open>c\<close> were, after the pass over that message and the \<open>handle_auto_pause\<close> it
  schedules, the controller \<open>c1\<close> has \<open>rate_limit_detected\<close>, \<open>auto_paused\<close> and
  \<open>is_paused\<close> set and blocks, and \<open>resume_scraping\<close> unblocks it. A worker that polls
  this controller \<open>n\<close> times and then, after the resume, sees it clear goes on from a
  state \<open>s2\<close> with the same cursor, records and retry queue, the failed request and
  the message being all that was added to the log. Once the next loop head has passed,
  the next request is made for the same page: if it returns no items (and nothing is
  pending) the run ends with \<open>Success\<close>, its page requests being the rate-limited one
  and the repeated one; if it returns items, the page is processed now and the cursor
  advances to the next page. In every run that returns, the request after the
  rate-limited one is for the same page, and the pages that came back with items are
  the consecutive pages from the starting cursor up to the final cursor, each once:
  no page is skipped and none is processed twice.
\<close>

theorem rate_limit_retries_same_page:
  assumes "loop_head s = Some (Inr s1)"
  shows "(let m = ''429 Too Many Requests on page '' @ str_int (page_number s)
                   @ ''. URL: '' @ page_url url (page_number s);
              c1 = run_scheduled (check_for_errors c [m])
          in rate_limit_detected c1 \<and> auto_paused c1 \<and> is_paused c1 \<and>
             snd (check_for_errors c [m]) = (if is_paused c then 0 else 1) \<and>
             blocking c1 \<and> \<not> blocking (resume_scraping c1) \<and>
             (\<forall>n rest. obs s1 = replicate n (seen c1) @ seen (resume_scraping c1) # rest \<longrightarrow>
                (\<exists>s2. fetch_workshop_items url (HttpError 429 e # fs) s
                         = fetch_workshop_items url fs s2 \<and>
                       page_number s2 = page_number s \<and> items s2 = items s1 \<and>
                       pending_items s2 = pending_items s1 \<and> obs s2 = rest \<and>
                       log s2 = log (load_page (HttpError 429 e) s1) @ [ErrorPut m] \<and>
                       fetched (log s2) = fetched (log s) @ [(page_number s, HttpError 429 e)] \<and>
                       (\<forall>s3 fs'. loop_head s2 = Some (Inr s3) \<and> pending_items s3 = [] \<and>
                            fs = Listing [] # fs' \<longrightarrow>
                          fetch_workshop_items url (HttpError 429 e # fs) s
                            = Some (Success, load_page (Listing []) s3) \<and>
                          fetched (log (load_page (Listing []) s3))
                            = fetched (log s) @ [(page_number s, HttpError 429 e),
                                                 (page_number s, Listing [])]) \<and>
                       (\<forall>s3 ws fs'. loop_head s2 = Some (Inr s3) \<and> ws \<noteq> [] \<and>
                            fs = Listing ws # fs' \<longrightarrow>
                          fetch_workshop_items url (HttpError 429 e # fs) s
                            = (case page_batches (page_number s) 0 (batches ws)
                                      (load_page (Listing ws) s3) of
                                 None \<Rightarrow> None
                               | Some s4 \<Rightarrow> fetch_workshop_items url fs'
                                             (s4\<lparr>page_number := page_number s + 1\<rparr>)) \<and>
                          fetched (log (load_page (Listing ws) s3))
                            = fetched (log s) @ [(page_number s, HttpError 429 e),
                                                 (page_number s, Listing ws)]) \<and>
                       (\<forall>f fs' st s'. fs = f # fs' \<and> st \<noteq> Cancelled \<and>
                            fetch_workshop_items url fs s2 = Some (st, s') \<longrightarrow>
                          prefix (fetched (log s) @ [(page_number s, HttpError 429 e), (page_number s, f)])
                            (fetched (log s')))))) \<and>
         (\<forall>st s'. fetch_workshop_items url fs0 s0 = Some (st, s') \<longrightarrow>
            completed (log s') = completed (log s0) @ [page_number s0 .. page_number s' - 1])"
proof -
  define m where "m = ''429 Too Many Requests on page '' @ str_int (page_number s)
      @ ''. URL: '' @ page_url url (page_number s)"
  define c1 where "c1 = run_scheduled (check_for_errors c [m])"
  have cm: "contains ''429'' m" unfolding m_def by (intro contains_prefix) simp
  have ce: "check_for_errors c [m]
      = (c\<lparr>rate_limit_detected := True, auto_paused := True\<rparr>, if is_paused c then 0 else 1)"
    by (rule check_for_errors_429 [OF cm])
  have a1: "rate_limit_detected c1" and a2: "auto_paused c1" and a2': "is_paused c1"
    unfolding c1_def ce by (simp_all add: run_scheduled_def handle_auto_pause_def)
  have a3: "snd (check_for_errors c [m]) = (if is_paused c then 0 else 1)"
    unfolding ce by simp
  have a4: "blocking c1" using a1 by (simp add: blocking_def)
  have a5: "\<not> blocking (resume_scraping c1)"
    using a2' by (simp add: resume_scraping_def blocking_def Let_def)
  have i: "inner s s1" using loop_head_frame [OF assms] by simp
  then have p1: "page_number s1 = page_number s" and f1: "fetched (log s1) = fetched (log s)"
    by (simp_all add: inner_def)
  let ?P = "\<lambda>rest s2. fetch_workshop_items url (HttpError 429 e # fs) s
                 = fetch_workshop_items url fs s2 \<and>
               page_number s2 = page_number s \<and> items s2 = items s1 \<and>
               pending_items s2 = pending_items s1 \<and> obs s2 = rest \<and>
               log s2 = log (load_page (HttpError 429 e) s1) @ [ErrorPut m] \<and>
               fetched (log s2) = fetched (log s) @ [(page_number s, HttpError 429 e)] \<and>
               (\<forall>s3 fs'. loop_head s2 = Some (Inr s3) \<and> pending_items s3 = [] \<and>
                    fs = Listing [] # fs' \<longrightarrow>
                  fetch_workshop_items url (HttpError 429 e # fs) s
                    = Some (Success, load_page (Listing []) s3) \<and>
                  fetched (log (load_page (Listing []) s3))
                    = fetched (log s) @ [(page_number s, HttpError 429 e),
                                         (page_number s, Listing [])]) \<and>
               (\<forall>s3 ws fs'. loop_head s2 = Some (Inr s3) \<and> ws \<noteq> [] \<and>
                    fs = Listing ws # fs' \<longrightarrow>
                  fetch_workshop_items url (HttpError 429 e # fs) s
                    = (case page_batches (page_number s) 0 (batches ws)
                              (load_page (Listing ws) s3) of
                         None \<Rightarrow> None
                       | Some s4 \<Rightarrow> fetch_workshop_items url fs'
                                     (s4\<lparr>page_number := page_number s + 1\<rparr>)) \<and>
                  fetched (log (load_page (Listing ws) s3))
                    = fetched (log s) @ [(page_number s, HttpError 429 e),
                                         (page_number s, Listing ws)]) \<and>
               (\<forall>f fs' st s'. fs = f # fs' \<and> st \<noteq> Cancelled \<and>
                    fetch_workshop_items url fs s2 = Some (st, s') \<longrightarrow>
                  prefix (fetched (log s) @ [(page_number s, HttpError 429 e), (page_number s, f)])
                    (fetched (log s')))"
  have b: "\<exists>s2. ?P rest s2"
    if o: "obs s1 = replicate n (seen c1) @ seen (resume_scraping c1) # rest" for n rest
  proof -
    have w: "wait_while blocking (obs s1) = Some (True, rest)"
      unfolding o using a4 a5 by (intro wait_while_polls) simp_all
    define s2 where "s2 = (load_page (HttpError 429 e) s1)\<lparr>
        log := log (load_page (HttpError 429 e) s1) @ [ErrorPut m], obs := rest\<rparr>"
    have r: "fetch_workshop_items url (HttpError 429 e # fs) s = fetch_workshop_items url fs s2"
      using assms w p1 by (simp add: fetch_workshop_items.simps Let_def s2_def m_def)
    have fl: "fetched (log s2) = fetched (log s) @ [(page_number s, HttpError 429 e)]"
      using p1 f1 by (simp add: s2_def)
    have p2: "page_number s2 = page_number s" using p1 by (simp add: s2_def)
    have nx: "prefix (fetched (log s) @ [(page_number s, HttpError 429 e), (page_number s, f)])
          (fetched (log s'))"
      if "fs = f # fs' \<and> st \<noteq> Cancelled \<and> fetch_workshop_items url fs s2 = Some (st, s')"
      for f fs' st s'
    proof -
      from that have a: "fetch_workshop_items url (f # fs') s2 = Some (st, s')"
        and b: "st \<noteq> Cancelled" by auto
      have "fetched (log s') = fetched (log s2) @ spec_page_walk (page_number s2) (f # fs')"
        by (rule run_walk [OF a b])
      then show ?thesis using fl p2 by simp
    qed
    have fr: "page_number s3 = page_number s \<and> fetched (log s3) = fetched (log s2)"
      if "loop_head s2 = Some (Inr s3)" for s3
      using loop_head_frame [OF that] p2 by (simp add: inner_def)
    have e1: "fetch_workshop_items url (HttpError 429 e # fs) s
          = Some (Success, load_page (Listing []) s3) \<and>
        fetched (log (load_page (Listing []) s3))
          = fetched (log s) @ [(page_number s, HttpError 429 e), (page_number s, Listing [])]"
      if "loop_head s2 = Some (Inr s3) \<and> pending_items s3 = [] \<and> fs = Listing [] # fs'"
      for s3 fs'
    proof -
      from that have h: "loop_head s2 = Some (Inr s3)" and pe: "pending_items s3 = []"
        and fs: "fs = Listing [] # fs'" by auto
      have "fetch_workshop_items url (Listing [] # fs') s2 = Some (Success, load_page (Listing []) s3)"
        using h pe by (simp add: fetch_workshop_items.simps Let_def)
      then show ?thesis using r fs fr [OF h] fl by simp
    qed
    have e2: "fetch_workshop_items url (HttpError 429 e # fs) s
          = (case page_batches (page_number s) 0 (batches ws) (load_page (Listing ws) s3) of
               None \<Rightarrow> None
             | Some s4 \<Rightarrow> fetch_workshop_items url fs' (s4\<lparr>page_number := page_number s + 1\<rparr>)) \<and>
        fetched (log (load_page (Listing ws) s3))
          = fetched (log s) @ [(page_number s, HttpError 429 e), (page_number s, Listing ws)]"
      if "loop_head s2 = Some (Inr s3) \<and> ws \<noteq> [] \<and> fs = Listing ws # fs'"
      for s3 ws fs'
    proof -
      from that have h: "loop_head s2 = Some (Inr s3)" and ne: "ws \<noteq> []"
        and fs: "fs = Listing ws # fs'" by auto
      have "fetch_workshop_items url (Listing ws # fs') s2
          = (case page_batches (page_number s) 0 (batches ws) (load_page (Listing ws) s3) of
               None \<Rightarrow> None
             | Some s4 \<Rightarrow> fetch_workshop_items url fs' (s4\<lparr>page_number := page_number s + 1\<rparr>))"
        using h ne by (simp add: fetch_workshop_items.simps Let_def fr [OF h, THEN conjunct1]
              cong: option.case_cong)
      then show ?thesis using r fs fr [OF h] fl by simp
    qed
    have E1: "\<forall>s3 fs'. loop_head s2 = Some (Inr s3) \<and> pending_items s3 = [] \<and>
              fs = Listing [] # fs' \<longrightarrow>
            fetch_workshop_items url (HttpError 429 e # fs) s
              = Some (Success, load_page (Listing []) s3) \<and>
            fetched (log (load_page (Listing []) s3))
              = fetched (log s) @ [(page_number s, HttpError 429 e),
                                   (page_number s, Listing [])]"
      by (intro allI impI) (rule e1)
    have E2: "\<forall>s3 ws fs'. loop_head s2 = Some (Inr s3) \<and> ws \<noteq> [] \<and>
              fs = Listing ws # fs' \<longrightarrow>
            fetch_workshop_items url (HttpError 429 e # fs) s
              = (case page_batches (page_number s) 0 (batches ws)
                        (load_page (Listing ws) s3) of
                   None \<Rightarrow> None
                 | Some s4 \<Rightarrow> fetch_workshop_items url fs'
                               (s4\<lparr>page_number := page_number s + 1\<rparr>)) \<and>
            fetched (log (load_page (Listing ws) s3))
              = fetched (log s) @ [(page_number s, HttpError 429 e),
                                   (page_number s, Listing ws)]"
      by (intro allI impI) (rule e2)
    have NX: "\<forall>f fs' st s'. fs = f # fs' \<and> st \<noteq> Cancelled \<and>
              fetch_workshop_items url fs s2 = Some (st, s') \<longrightarrow>
            prefix (fetched (log s) @ [(page_number s, HttpError 429 e), (page_number s, f)])
              (fetched (log s'))"
      by (intro allI impI) (rule nx)
    have q1: "items s2 = items s1" by (simp add: s2_def)
    have q2: "pending_items s2 = pending_items s1" by (simp add: s2_def)
    have q3: "obs s2 = rest" by (simp add: s2_def)
    have q4: "log s2 = log (load_page (HttpError 429 e) s1) @ [ErrorPut m]" by (simp add: s2_def)
    show ?thesis
      by (rule exI [of _ s2]) (intro conjI r p2 q1 q2 q3 q4 fl E1 E2 NX)
  qed
  have B: "\<forall>n rest. obs s1 = replicate n (seen c1) @ seen (resume_scraping c1) # rest \<longrightarrow>
      (\<exists>s2. ?P rest s2)"
  proof (intro allI impI)
    fix n rest
    assume "obs s1 = replicate n (seen c1) @ seen (resume_scraping c1) # rest"
    then show "\<exists>s2. ?P rest s2" by (rule b)
  qed
  have c: "\<forall>st s'. fetch_workshop_items url fs0 s0 = Some (st, s') \<longrightarrow>
      completed (log s') = completed (log s0) @ [page_number s0 .. page_number s' - 1]"
    using run_completed by blast
  have A: "rate_limit_detected c1 \<and> auto_paused c1 \<and> is_paused c1 \<and>
      snd (check_for_errors c [m]) = (if is_paused c then 0 else 1) \<and>
      blocking c1 \<and> \<not> blocking (resume_scraping c1) \<and>
      (\<forall>n rest. obs s1 = replicate n (seen c1) @ seen (resume_scraping c1) # rest \<longrightarrow>
         (\<exists>s2. ?P rest s2))"
    using a1 a2 a2' a3 a4 a5 B by (simp only: simp_thms)
  show ?thesis
    unfolding Let_def m_def [symmetric] c1_def [symmetric]
    using A c by (rule conjI)
qed

theorem rate_limit_retries_same_page_witness:
  "\<exists>s'. fetch_workshop_items ''u'' [HttpError 429 ''Too Many Requests'', Listing []]
            (start [running, running, rate_limited, running, running, running]
               ([] :: nat detail_outcome list))
          = Some (Success, s') \<and>
        fetched (log s') = [(1, HttpError 429 ''Too Many Requests''), (1, Listing [])]"
proof -
  let ?s = "start [running, running, rate_limited, running, running, running]
      ([] :: nat detail_outcome list)"
  let ?s1 = "start [rate_limited, running, running, running] ([] :: nat detail_outcome list)"
  let ?c = "\<lparr>is_paused = False, pause_event = False, rate_limit_detected = False,
      auto_paused = False\<rparr>"
  let ?m = "''429 Too Many Requests on page '' @ str_int (page_number ?s)
      @ ''. URL: '' @ page_url ''u'' (page_number ?s)"
  have b: "loop_head ?s = Some (Inr ?s1)"
    by (simp add: loop_head_def wait_if_def running_def drain_pending_def start_def)
  have cm: "contains ''429'' ?m" by (intro contains_prefix) simp
  have cv: "run_scheduled (check_for_errors ?c [?m])
      = \<lparr>is_paused = True, pause_event = True, rate_limit_detected = True, auto_paused = True\<rparr>"
    unfolding check_for_errors_429 [OF cm]
    by (simp add: run_scheduled_def handle_auto_pause_def)
  have o: "obs ?s1 = replicate 1 (seen (run_scheduled (check_for_errors ?c [?m])))
      @ seen (resume_scraping (run_scheduled (check_for_errors ?c [?m]))) # [running, running]"
    unfolding cv
    by (simp add: start_def seen_def resume_scraping_def rate_limited_def running_def)
  note t = rate_limit_retries_same_page [OF b, of "''u''" ?c "''Too Many Requests''" "[Listing []]",
      unfolded Let_def, THEN conjunct1, THEN conjunct2, THEN conjunct2, THEN conjunct2,
      THEN conjunct2, THEN conjunct2, THEN conjunct2, rule_format, OF o]
  from t obtain s2 where
    p: "pending_items s2 = pending_items ?s1" and ob: "obs s2 = [running, running]"
    and e: "\<And>s3 fs'. loop_head s2 = Some (Inr s3) \<and> pending_items s3 = [] \<and>
              [Listing []] = Listing [] # fs' \<Longrightarrow>
            fetch_workshop_items ''u'' [HttpError 429 ''Too Many Requests'', Listing []] ?s
              = Some (Success, load_page (Listing []) s3) \<and>
            fetched (log (load_page (Listing []) s3))
              = fetched (log ?s) @ [(page_number ?s, HttpError 429 ''Too Many Requests''),
                                     (page_number ?s, Listing [])]"
    by blast
  have h: "loop_head s2 = Some (Inr (s2\<lparr>obs := []\<rparr>))"
  proof (rule loop_head_clear [where a = running and b = running])
    show "obs s2 = [running, running]" by (rule ob)
    show "\<not> pause_event running" by (simp add: running_def)
    show "\<not> rate_limit_detected running" by (simp add: running_def)
    show "pending_items s2 = []" using p by (simp add: start_def)
  qed
  have "loop_head s2 = Some (Inr (s2\<lparr>obs := []\<rparr>)) \<and> pending_items (s2\<lparr>obs := []\<rparr>) = [] \<and>
      [Listing []] = Listing [] # []"
    using h p by (simp add: start_def)
  note e [OF this]
  then show ?thesis by (simp add: start_def)
qed

subsection \<open>C8: the delay policy and where it is waited\<close>

text \<open>
  C8 as stated fails in its second half. The delay of page 1 is one second, and the
  worker waits only for a delay that exceeds one second: the first page is requested
  without any wait before it.
\<close>

theorem no_wait_before_first_page:
  "calculate_delay 1 = 1 \<and>
   fetch_workshop_items ''u'' [Listing []]
     (start [running, running] ([] :: nat detail_outcome list))
   = Some (Success,
       \<lparr>page_number = 1, items = [], pending_items = [], processing_pending = False,
          obs = [], details = [], log = [GetPage 1 (Listing [])]\<rparr>)"
  by (simp add: fetch_workshop_items.simps start_def loop_head_def wait_if_def running_def
        drain_pending_def load_page_def calculate_delay_def Let_def)

text \<open>
  C8, amended. The delay policy is the step function of the specification (3 s above
  page 15, 2.5 s above page 10, 2 s above page 5, else 1 s). In the log of every run,
  each request of a listing page above page 5 comes immediately after the wait of the
  policy's delay for that page, and each request of a page up to 5 comes with no wait
  before it (\<open>waits\<close> pairs every page request of a log with the wait logged
  immediately before it, if there is one).
\<close>

theorem delay_policy_applied:
  "calculate_delay p = (if p > 15 then 3 else if p > 10 then 5 / 2 else if p > 5 then 2 else 1) \<and>
   calculate_delay 16 = 3 \<and> calculate_delay 11 = 5 / 2 \<and>
   calculate_delay 6 = 2 \<and> calculate_delay 1 = 1 \<and>
   (fetch_workshop_items url fs s = Some (st, s') \<and> settled (log s) \<longrightarrow>
      (\<exists>new. fetched (log s') = fetched (log s) @ new \<and>
             waits (log s') = waits (log s) @
               map (\<lambda>(q, f). (q, if q > 5 then Some (calculate_delay q) else None)) new))"
proof -
  have w: "waited = (\<lambda>(q, f). (q, if q > 5 then Some (calculate_delay q) else None))"
    by (auto simp: waited_def fun_eq_iff)
  have "fetch_workshop_items url fs s = Some (st, s') \<and> settled (log s) \<longrightarrow>
      (\<exists>new. fetched (log s') = fetched (log s) @ new \<and>
             waits (log s') = waits (log s) @ map waited new)"
    using run_waits by blast
  then show ?thesis unfolding w by (simp add: calculate_delay_def)
qed

theorem delay_policy_applied_witness:
  "waits [Sleep 2, GetPage 6 (Listing []) :: nat event] = [(6, Some (calculate_delay 6))]"
proof -
  have r: "fetch_workshop_items ''u'' [Listing []]
      \<lparr>page_number = 6, items = [], pending_items = [], processing_pending = False,
         obs = [running, running], details = ([] :: nat detail_outcome list), log = []\<rparr>
    = Some (Success,
       \<lparr>page_number = 6, items = [], pending_items = [], processing_pending = False,
          obs = [], details = [], log = [Sleep 2, GetPage 6 (Listing [])]\<rparr>)
    \<and> settled (log \<lparr>page_number = 6, items = [], pending_items = [], processing_pending = False,
         obs = [running, running], details = ([] :: nat detail_outcome list), log = []\<rparr>)"
    by (simp add: fetch_workshop_items.simps loop_head_def wait_if_def running_def
        drain_pending_def load_page_def calculate_delay_def Let_def settled_def)
  from delay_policy_applied [THEN conjunct2, THEN conjunct2, THEN conjunct2, THEN conjunct2,
      THEN conjunct2, THEN mp, OF r]
  obtain new where
    "fetched [Sleep 2, GetPage 6 (Listing []) :: nat event] = new"
    "waits [Sleep 2, GetPage 6 (Listing []) :: nat event]
       = map (\<lambda>(q, f). (q, if q > 5 then Some (calculate_delay q) else None)) new"
    by auto
  then show ?thesis by auto
qed

subsection \<open>C2: a pause and the batch scheduler\<close>

text \<open>
  C2 as stated fails. Inside \<open>process_item_batch\<close> a blocking controller makes the
  loop wait; it neither ends the batch nor enqueues anything. Here the flags block
  when item 3 of a batch of four is about to be processed (fifth snapshot) and are
  clear again at the next poll: all four items end as records and the retry queue
  stays empty.
\<close>

theorem pause_inside_batch_waits:
  "process_item_batch
     [linked ''a'' ''u1'', linked ''b'' ''u2'', linked ''c'' ''u3'', linked ''d'' ''u4''] 1
     (start [running, running, running, running, rate_limited, running, running, running, running]
        [DetailOk (10::nat), DetailOk 20, DetailOk 30, DetailOk 40])
   = Some
      ([\<lparr>Name = ''a'', stats = 10, origin = (linked ''a'' ''u1'', 1, 0)\<rparr>,
        \<lparr>Name = ''b'', stats = 20, origin = (linked ''b'' ''u2'', 1, 1)\<rparr>,
        \<lparr>Name = ''c'', stats = 30, origin = (linked ''c'' ''u3'', 1, 2)\<rparr>,
        \<lparr>Name = ''d'', stats = 40, origin = (linked ''d'' ''u4'', 1, 3)\<rparr>],
       \<lparr>page_number = 1, items = [], pending_items = [], processing_pending = False,
          obs = [], details = [],
          log = [Sleep (1 / 2), GetItem ''u1'' (DetailOk 10),
                 Sleep (1 / 2), GetItem ''u2'' (DetailOk 20),
                 Sleep (1 / 2), GetItem ''u3'' (DetailOk 30),
                 Sleep (1 / 2), GetItem ''u4'' (DetailOk 40)]\<rparr>)"
  by (simp add: process_item_batch_def enumerate_entries_def enumerate_eq_zip start_def
        running_def rate_limited_def blocking_def try_item_def fetch_item_details_def
        linked_def Let_def upt_rec)

text \<open>
  C2, amended. The pause is honoured where a batch is handed over, not inside the
  scheduler. (1) When the flags block at the check before a batch of a listing page,
  no item of that batch is processed and each of its items is enqueued once, in
  order, as \<open>(item, page, index on the page)\<close>; the walk goes on to the check of the
  next batch, and after the last batch of the page it ends with just that. (2) Inside
  the scheduler a blocking controller only delays: for a batch of items with a link,
  however long the flags block before any of its items (thread alive), if they are
  clear when each wait ends and at each fetch, and every fetch succeeds, then all
  items of the batch are collected, in order, and nothing is enqueued. (3) If the
  flags block at the moment the detail fetch of an item with a link is called, the
  fetch is refused, that one item is enqueued, once, and the batch goes on with the
  next item.
\<close>

theorem batch_pause_amended:
  "(obs s = ob # rest \<and> blocking ob \<longrightarrow>
      page_batches page i (batch # bs) s
        = page_batches page (i + 4) bs
            (s\<lparr>obs := rest, pending_items := pending_items s @ enumerate_entries batch page i\<rparr>) \<and>
      page_batches page i [batch] s
        = Some (s\<lparr>obs := rest,
                  pending_items := pending_items s @ enumerate_entries batch page i\<rparr>) \<and>
      enumerate_entries batch page i
        = map (\<lambda>j. (batch ! j, page, i + int j)) [0..<length batch]) \<and>
   (length sts = length batch \<and> length ws = length batch \<and> list_all fetchable batch \<and>
    list_all delayed ws \<and> obs s = concat (map polls ws) @ rest \<and>
    details s = map DetailOk sts @ ds \<longrightarrow>
      (\<exists>s'. process_item_batch batch page s
               = Some (map2 record_of (enumerate_entries batch page 0) sts, s') \<and>
            pending_items s' = pending_items s \<and> items s' = items s \<and>
            obs s' = rest \<and> details s' = ds)) \<and>
   (fetchable (fst e) \<and> obs s = c1 # ob # rest \<and> \<not> blocking c1 \<and> blocking ob \<longrightarrow>
      process_entries m (e # es) rs s
        = process_entries m es rs (s\<lparr>obs := rest, pending_items := pending_items s @ [e]\<rparr>) \<and>
      process_entries m [e] rs s
        = Some (rs, s\<lparr>obs := rest, pending_items := pending_items s @ [e]\<rparr>))"
proof (intro conjI impI)
  assume a: "obs s = ob # rest \<and> blocking ob"
  then show "page_batches page i (batch # bs) s
        = page_batches page (i + 4) bs
            (s\<lparr>obs := rest, pending_items := pending_items s @ enumerate_entries batch page i\<rparr>)"
    by simp
  from a show "page_batches page i [batch] s
        = Some (s\<lparr>obs := rest,
                  pending_items := pending_items s @ enumerate_entries batch page i\<rparr>)"
    by simp
  show "enumerate_entries batch page i
        = map (\<lambda>j. (batch ! j, page, i + int j)) [0..<length batch]"
    by (rule enumerate_entries_nth)
next
  assume a: "length sts = length batch \<and> length ws = length batch \<and> list_all fetchable batch \<and>
    list_all delayed ws \<and> obs s = concat (map polls ws) @ rest \<and>
    details s = map DetailOk sts @ ds"
  let ?es = "enumerate_entries batch page 0"
  have l: "length ?es = length batch" by (simp add: enumerate_entries_nth)
  have f: "list_all (\<lambda>e. fetchable (fst e)) ?es"
    unfolding list_all_iff
  proof
    fix e
    assume "e \<in> set ?es"
    then have "fst e \<in> set (map fst ?es)" by (simp del: enumerate_entries_items)
    then have "fst e \<in> set batch" by simp
    then show "fetchable (fst e)" using a by (simp add: list_all_iff)
  qed
  have "\<exists>s'. process_entries Fresh ?es [] s = Some ([] @ map2 record_of ?es sts, s') \<and>
        pending_items s' = pending_items s \<and> items s' = items s \<and>
        obs s' = rest \<and> details s' = ds"
    using a l f by (intro polls_only_delay) simp_all
  then show "\<exists>s'. process_item_batch batch page s
               = Some (map2 record_of (enumerate_entries batch page 0) sts, s') \<and>
            pending_items s' = pending_items s \<and> items s' = items s \<and>
            obs s' = rest \<and> details s' = ds"
    by (simp add: process_item_batch_def)
next
  assume a: "fetchable (fst e) \<and> obs s = c1 # ob # rest \<and> \<not> blocking c1 \<and> blocking ob"
  then have b: "fetchable (fst e)" "obs s = c1 # ob # rest" "\<not> blocking c1" "blocking ob"
    by simp_all
  show "process_entries m (e # es) rs s
        = process_entries m es rs (s\<lparr>obs := rest, pending_items := pending_items s @ [e]\<rparr>)"
    by (rule process_entries_refused [OF b])
  have "process_entries m [e] rs s
        = process_entries m [] rs (s\<lparr>obs := rest, pending_items := pending_items s @ [e]\<rparr>)"
    by (rule process_entries_refused [OF b])
  then show "process_entries m [e] rs s
        = Some (rs, s\<lparr>obs := rest, pending_items := pending_items s @ [e]\<rparr>)"
    by simp
qed

theorem batch_pause_amended_witness:
  "page_batches 2 4 [[linked ''e'' ''u5'', linked ''f'' ''u6'']]
      (start [rate_limited] ([] :: nat detail_outcome list))
     = Some ((start [rate_limited] [])\<lparr>obs := [],
          pending_items := pending_items (start [rate_limited] ([] :: nat detail_outcome list))
            @ enumerate_entries [linked ''e'' ''u5'', linked ''f'' ''u6''] 2 4\<rparr>) \<and>
   enumerate_entries [linked ''e'' ''u5'', linked ''f'' ''u6''] 2 4
     = map (\<lambda>j. ([linked ''e'' ''u5'', linked ''f'' ''u6''] ! j, 2, 4 + int j))
         [0..<length [linked ''e'' ''u5'', linked ''f'' ''u6'']] \<and>
   (\<exists>s'. process_item_batch [linked ''a'' ''u1'', linked ''b'' ''u2''] 1
            (start [running, running, rate_limited, rate_limited, running, running]
               [DetailOk (10::nat), DetailOk 20])
          = Some (map2 record_of (enumerate_entries [linked ''a'' ''u1'', linked ''b'' ''u2''] 1 0)
                    [10, 20], s') \<and>
        pending_items s' = [] \<and> obs s' = [] \<and> details s' = []) \<and>
   process_entries Fresh [(linked ''c'' ''u3'', 1, 2)] []
      (start [running, rate_limited] ([] :: nat detail_outcome list))
     = Some ([], (start [running, rate_limited] [])\<lparr>obs := [],
          pending_items := pending_items (start [running, rate_limited] ([] :: nat detail_outcome list))
            @ [(linked ''c'' ''u3'', 1, 2)]\<rparr>)"
proof -
  have h1: "obs (start [rate_limited] ([] :: nat detail_outcome list)) = rate_limited # []
      \<and> blocking rate_limited"
    by (simp add: start_def rate_limited_def blocking_def)
  have h2: "length [10::nat, 20] = length [linked ''a'' ''u1'', linked ''b'' ''u2''] \<and>
      length [([], running, running), ([rate_limited, rate_limited], running, running)]
        = length [linked ''a'' ''u1'', linked ''b'' ''u2''] \<and>
      list_all fetchable [linked ''a'' ''u1'', linked ''b'' ''u2''] \<and>
      list_all delayed [([], running, running), ([rate_limited, rate_limited], running, running)] \<and>
      obs (start [running, running, rate_limited, rate_limited, running, running]
             [DetailOk (10::nat), DetailOk 20])
        = concat (map polls [([], running, running),
                             ([rate_limited, rate_limited], running, running)]) @ [] \<and>
      details (start [running, running, rate_limited, rate_limited, running, running]
             [DetailOk (10::nat), DetailOk 20]) = map DetailOk [10, 20] @ []"
    by (simp add: start_def fetchable_def linked_def delayed_def polls_def running_def
          rate_limited_def blocking_def)
  have h3: "fetchable (fst (linked ''c'' ''u3'', 1::int, 2::int)) \<and>
      obs (start [running, rate_limited] ([] :: nat detail_outcome list))
        = running # rate_limited # [] \<and>
      \<not> blocking running \<and> blocking rate_limited"
    by (simp add: start_def fetchable_def linked_def running_def rate_limited_def blocking_def)
  note t1 = batch_pause_amended [THEN conjunct1, THEN mp, OF h1]
  note t2 = batch_pause_amended [THEN conjunct2, THEN conjunct1, THEN mp, OF h2]
  note t3 = batch_pause_amended [THEN conjunct2, THEN conjunct2, THEN mp, OF h3]
  from t2 [of 1] obtain s' where
    "process_item_batch [linked ''a'' ''u1'', linked ''b'' ''u2''] 1
            (start [running, running, rate_limited, rate_limited, running, running]
               [DetailOk (10::nat), DetailOk 20])
          = Some (map2 record_of (enumerate_entries [linked ''a'' ''u1'', linked ''b'' ''u2''] 1 0)
                    [10, 20], s')"
    "pending_items s' = pending_items (start [running, running, rate_limited, rate_limited,
        running, running] [DetailOk (10::nat), DetailOk 20])"
    "obs s' = []" "details s' = []"
    by blast
  then have w2: "\<exists>s'. process_item_batch [linked ''a'' ''u1'', linked ''b'' ''u2''] 1
            (start [running, running, rate_limited, rate_limited, running, running]
               [DetailOk (10::nat), DetailOk 20])
          = Some (map2 record_of (enumerate_entries [linked ''a'' ''u1'', linked ''b'' ''u2''] 1 0)
                    [10, 20], s') \<and>
        pending_items s' = [] \<and> obs s' = [] \<and> details s' = []"
    by (intro exI [of _ s']) (simp add: start_def)
  show ?thesis
    by (intro conjI t1 [THEN conjunct2, THEN conjunct1] t1 [THEN conjunct2, THEN conjunct2] w2
          t3 [THEN conjunct2])
qed

subsection \<open>C1: an item without a link is lost\<close>


subsection \<open>C5: the final pass over the retry queue\<close>


end
